theory Spec2Isabelle
  imports Complex_Main
begin

section \<open>The batching queue of the Tana client (src/server/batching-queue.ts)\<close>

text \<open>
  The class \<^verbatim>\<open>BatchingQueue\<close> sits between the callers of the Tana client and the
  HTTP executor.  The embedding keeps the fields and the methods of the class under
  their own names.  Numbers that the configuration supplies are \<open>int\<close> (counts) or
  \<open>rat\<close> (milliseconds, requests per second); counters that the class itself starts
  at zero and only increments are \<open>nat\<close>.
\<close>

subsection \<open>Requests, responses, errors, options\<close>

text \<open>
  A request is a \<^verbatim>\<open>TanaCreateNodesRequest\<close> (it has the property \<^verbatim>\<open>nodes\<close>) or a
  \<^verbatim>\<open>TanaSetNameRequest\<close>.  The node type \<open>'n\<close> and the per-node result type \<open>'r\<close>
  are opaque to the queue.
\<close>

datatype 'n TanaAPIRequest =
    CreateNodes "string option" "'n list"
  | SetName string string

record 'r TanaAPIResponse =
  children :: "'r list option"

text \<open>
  The errors the queue raises carry the numbers their messages interpolate; an error
  thrown by the executor carries its message.
\<close>

datatype Error =
    WorkspaceLimit int int int
  | PayloadSize int int
  | RetriesFailed int Error
  | Transport string

record BatchingOptions =
  maxNodesPerRequest :: int
  maxPayloadSize :: int
  maxWorkspaceNodes :: int
  rateLimit :: rat
  maxRetries :: int
  baseBackoffMs :: rat

definition defaultOptions :: BatchingOptions where
  "defaultOptions =
     \<lparr>maxNodesPerRequest = 100, maxPayloadSize = 5000, maxWorkspaceNodes = 750000,
      rateLimit = 1, maxRetries = 3, baseBackoffMs = 1000\<rparr>"

fun isCreateNodesRequest :: "'n TanaAPIRequest \<Rightarrow> bool" where
  "isCreateNodesRequest (CreateNodes target ns) = True"
| "isCreateNodesRequest (SetName target name) = False"

text \<open>\<^verbatim>\<open>isCreateNodesRequest(request) ? request.nodes.length : 0\<close>\<close>

fun estimatedNewNodes :: "'n TanaAPIRequest \<Rightarrow> int" where
  "estimatedNewNodes (CreateNodes target ns) = int (length ns)"
| "estimatedNewNodes (SetName target name) = 0"

subsection \<open>Splitting and combining\<close>

text \<open>
  \<^verbatim>\<open>Array.prototype.slice(start, end)\<close>: a negative index counts from the end, and
  both indices are clamped to the array.
\<close>

definition slice :: "'a list \<Rightarrow> int \<Rightarrow> int \<Rightarrow> 'a list" where
  "slice xs start fin =
     (let len = int (length xs);
          k = (if start < 0 then max (len + start) 0 else min start len);
          final = (if fin < 0 then max (len + fin) 0 else min fin len)
      in take (nat (final - k)) (drop (nat k) xs))"

text \<open>
  \<^verbatim>\<open>for (let i = 0; i < nodes.length; i += chunkSize) chunks.push(nodes.slice(i, i + chunkSize))\<close>.
  With a chunk size of zero or less the index never reaches the length: the loop
  does not return, which is the value \<open>None\<close>.
\<close>

partial_function (option) chunkNodes_loop ::
  "'a list \<Rightarrow> int \<Rightarrow> int \<Rightarrow> 'a list list \<Rightarrow> 'a list list option" where
  "chunkNodes_loop nodes chunkSize i chunks =
     (if i < int (length nodes)
      then chunkNodes_loop nodes chunkSize (i + chunkSize) (chunks @ [slice nodes i (i + chunkSize)])
      else Some chunks)"

declare chunkNodes_loop.simps [code]

definition chunkNodes :: "'a list \<Rightarrow> int \<Rightarrow> 'a list list option" where
  "chunkNodes nodes chunkSize = chunkNodes_loop nodes chunkSize 0 []"

text \<open>
  \<^verbatim>\<open>combineResponses\<close>: the children of every response that has children, appended in
  the order of the responses; the combined response always has a children array.
\<close>

fun combineResponses_loop :: "'r list \<Rightarrow> 'r TanaAPIResponse list \<Rightarrow> 'r list" where
  "combineResponses_loop combined [] = combined"
| "combineResponses_loop combined (response # responses) =
     (case children response of
        Some cs \<Rightarrow> combineResponses_loop (combined @ cs) responses
      | None \<Rightarrow> combineResponses_loop combined responses)"

definition combineResponses :: "'r TanaAPIResponse list \<Rightarrow> 'r TanaAPIResponse" where
  "combineResponses responses = \<lparr>children = Some (combineResponses_loop [] responses)\<rparr>"

subsection \<open>The state of the queue and of its callers\<close>

text \<open>
  A \<^verbatim>\<open>QueuedRequest\<close>.  The identifier \<^verbatim>\<open>req_N\<close> is the number \<open>N\<close>; the callbacks
  \<^verbatim>\<open>resolve\<close> and \<^verbatim>\<open>reject\<close> are the number of the call of \<^verbatim>\<open>enqueue\<close> whose
  promise they complete.
\<close>

record 'n QueuedRequest =
  entryId :: nat
  request :: "'n TanaAPIRequest"
  promise :: nat
  timestamp :: rat
  retryCount :: nat

text \<open>
  An activation of \<^verbatim>\<open>handleLargeCreateRequest\<close> that is suspended at
  \<^verbatim>\<open>await this.enqueue(chunkRequest)\<close>: the call it answers, the target of the
  original request, the chunks the \<^verbatim>\<open>for\<close> loop has not reached yet, and
  \<^verbatim>\<open>allResponses\<close>.
\<close>

record ('n, 'r) SplitCall =
  caller :: nat
  targetNodeId :: "string option"
  pendingChunks :: "'n list list"
  allResponses :: "'r TanaAPIResponse list"

text \<open>
  The first five fields are the fields of the class.  The others are its
  surroundings: the clock that \<^verbatim>\<open>Date.now()\<close> reads, the number of calls of
  \<^verbatim>\<open>enqueue\<close> made so far, the suspended split activations, the promises completed
  so far (with their outcome, in order), and the calls of the executor made so far
  (with their time, in order).
\<close>

record ('n, 'r) state =
  queue :: "'n QueuedRequest list"
  processing :: bool
  lastRequestTime :: rat
  totalNodeCount :: int
  requestId :: nat
  clock :: rat
  calls :: nat
  splits :: "('n, 'r) SplitCall list"
  settled :: "(nat \<times> (Error + 'r TanaAPIResponse)) list"
  dispatched :: "(rat \<times> 'n QueuedRequest) list"

definition initial :: "('n, 'r) state" where
  "initial =
     \<lparr>queue = [], processing = False, lastRequestTime = 0, totalNodeCount = 0, requestId = 0,
      clock = 0, calls = 0, splits = [], settled = [], dispatched = []\<rparr>"

subsection \<open>The methods\<close>

text \<open>
  \<^verbatim>\<open>sleep(ms)\<close>: the timer fires after exactly \<open>ms\<close> milliseconds, at once when \<open>ms\<close> is
  negative.  Time is counted in milliseconds as a rational number.
\<close>

definition sleep :: "rat \<Rightarrow> ('n, 'r) state \<Rightarrow> ('n, 'r) state" where
  "sleep ms w = w\<lparr>clock := clock w + max 0 ms\<rparr>"

definition resetNodeCount :: "('n, 'r) state \<Rightarrow> ('n, 'r) state" where
  "resetNodeCount w = w\<lparr>totalNodeCount := 0\<rparr>"

definition setNodeCount :: "int \<Rightarrow> ('n, 'r) state \<Rightarrow> ('n, 'r) state" where
  "setNodeCount count w = w\<lparr>totalNodeCount := max 0 count\<rparr>"

text \<open>\<^verbatim>\<open>response.children?.length || 0\<close>\<close>

definition nodesCreated :: "'r TanaAPIResponse \<Rightarrow> int" where
  "nodesCreated response = (case children response of Some cs \<Rightarrow> int (length cs) | None \<Rightarrow> 0)"

definition updateNodeCount ::
  "'n TanaAPIRequest \<Rightarrow> 'r TanaAPIResponse \<Rightarrow> ('n, 'r) state \<Rightarrow> ('n, 'r) state" where
  "updateNodeCount req response w =
     (if isCreateNodesRequest req
      then w\<lparr>totalNodeCount := totalNodeCount w + nodesCreated response\<rparr>
      else w)"

text \<open>
  The two checks at the head of \<^verbatim>\<open>enqueue\<close>, in their order.  \<open>jsonLength\<close> stands for
  \<^verbatim>\<open>JSON.stringify(request).length\<close>; the node types it serialises are not part of
  the queue.
\<close>

definition admission ::
  "BatchingOptions \<Rightarrow> ('n TanaAPIRequest \<Rightarrow> int) \<Rightarrow> ('n, 'r) state \<Rightarrow> 'n TanaAPIRequest
     \<Rightarrow> Error option" where
  "admission opts jsonLength w req =
     (if totalNodeCount w + estimatedNewNodes req > maxWorkspaceNodes opts
      then Some (WorkspaceLimit (estimatedNewNodes req) (maxWorkspaceNodes opts) (totalNodeCount w))
      else if jsonLength req > maxPayloadSize opts
      then Some (PayloadSize (jsonLength req) (maxPayloadSize opts))
      else None)"

text \<open>
  The head of \<^verbatim>\<open>processQueue\<close>: a worker starts unless one is running or there is
  nothing to do.  The iterations of its loop are \<open>processQueue_iteration\<close> below.
\<close>

definition processQueue :: "('n, 'r) state \<Rightarrow> ('n, 'r) state" where
  "processQueue w = (if processing w \<or> queue w = [] then w else w\<lparr>processing := True\<rparr>)"

text \<open>The promise executor at the end of \<^verbatim>\<open>enqueue\<close>: a new entry joins the tail.\<close>

definition pushRequest ::
  "nat \<Rightarrow> 'n TanaAPIRequest \<Rightarrow> ('n, 'r) state \<Rightarrow> ('n, 'r) state" where
  "pushRequest c req w =
     processQueue
       (w\<lparr>requestId := Suc (requestId w),
          queue := queue w @
            [\<lparr>entryId = Suc (requestId w), request = req, promise = c,
              timestamp = clock w, retryCount = 0\<rparr>]\<rparr>)"

text \<open>
  The promise of call \<open>c\<close> is rejected.  When \<open>c\<close> is a split create suspended at its
  \<^verbatim>\<open>await\<close>, the rejection is thrown there, nothing catches it, and the activation
  ends with the same error: its responses so far and its remaining chunks are
  dropped.
\<close>

definition rejectCall :: "nat \<Rightarrow> Error \<Rightarrow> ('n, 'r) state \<Rightarrow> ('n, 'r) state" where
  "rejectCall c err w =
     w\<lparr>splits := filter (\<lambda>s. caller s \<noteq> c) (splits w), settled := settled w @ [(c, Inl err)]\<rparr>"

text \<open>
  \<^verbatim>\<open>await this.enqueue(chunkRequest)\<close> inside \<^verbatim>\<open>handleLargeCreateRequest\<close>: the chunk
  passes the two checks again and joins the tail, and the activation \<open>s\<close> is suspended
  until that entry completes.  A chunk is never longer than \<^verbatim>\<open>maxNodesPerRequest\<close>
  (lemma \<open>chunkNodes_within_limit\<close> below), so this call never splits again; the model
  has no value for that case.
\<close>

definition awaitChunk ::
  "BatchingOptions \<Rightarrow> ('n TanaAPIRequest \<Rightarrow> int) \<Rightarrow> ('n, 'r) SplitCall \<Rightarrow> 'n list
     \<Rightarrow> ('n, 'r) state \<Rightarrow> ('n, 'r) state option" where
  "awaitChunk opts jsonLength s chunk w =
     (let chunkRequest = CreateNodes (targetNodeId s) chunk
      in case admission opts jsonLength w chunkRequest of
           Some err \<Rightarrow> Some (rejectCall (caller s) err w)
         | None \<Rightarrow>
             if int (length chunk) > maxNodesPerRequest opts then None
             else Some (pushRequest (caller s) chunkRequest (w\<lparr>splits := splits w @ [s]\<rparr>)))"

text \<open>
  The \<^verbatim>\<open>for\<close> loop of \<^verbatim>\<open>handleLargeCreateRequest\<close>, from the activation \<open>s\<close> on: the next
  chunk is enqueued and awaited; after the last one the responses are combined.
\<close>

definition handleLargeCreateRequest_loop ::
  "BatchingOptions \<Rightarrow> ('n TanaAPIRequest \<Rightarrow> int) \<Rightarrow> ('n, 'r) SplitCall
     \<Rightarrow> ('n, 'r) state \<Rightarrow> ('n, 'r) state option" where
  "handleLargeCreateRequest_loop opts jsonLength s w =
     (case pendingChunks s of
        [] \<Rightarrow> Some (w\<lparr>settled := settled w @ [(caller s, Inr (combineResponses (allResponses s)))]\<rparr>)
      | chunk # remaining \<Rightarrow> awaitChunk opts jsonLength (s\<lparr>pendingChunks := remaining\<rparr>) chunk w)"

definition handleLargeCreateRequest ::
  "BatchingOptions \<Rightarrow> ('n TanaAPIRequest \<Rightarrow> int) \<Rightarrow> nat \<Rightarrow> string option \<Rightarrow> 'n list
     \<Rightarrow> ('n, 'r) state \<Rightarrow> ('n, 'r) state option" where
  "handleLargeCreateRequest opts jsonLength c target ns w =
     (case chunkNodes ns (maxNodesPerRequest opts) of
        None \<Rightarrow> None
      | Some chunks \<Rightarrow>
          handleLargeCreateRequest_loop opts jsonLength
            \<lparr>caller = c, targetNodeId = target, pendingChunks = chunks, allResponses = []\<rparr> w)"

text \<open>
  \<^verbatim>\<open>enqueue\<close>, called by a caller: the call gets the next number, and its promise is
  rejected by a failed check, handed to \<^verbatim>\<open>handleLargeCreateRequest\<close>, or tied to a new
  entry.
\<close>

definition enqueue ::
  "BatchingOptions \<Rightarrow> ('n TanaAPIRequest \<Rightarrow> int) \<Rightarrow> 'n TanaAPIRequest
     \<Rightarrow> ('n, 'r) state \<Rightarrow> ('n, 'r) state option" where
  "enqueue opts jsonLength req w =
     (let c = calls w; w0 = w\<lparr>calls := Suc c\<rparr>
      in case admission opts jsonLength w req of
           Some err \<Rightarrow> Some (rejectCall c err w0)
         | None \<Rightarrow>
             (case req of
                CreateNodes target ns \<Rightarrow>
                  if int (length ns) > maxNodesPerRequest opts
                  then handleLargeCreateRequest opts jsonLength c target ns w0
                  else Some (pushRequest c req w0)
              | SetName target name \<Rightarrow> Some (pushRequest c req w0)))"

text \<open>
  The promise of call \<open>c\<close> is resolved.  When \<open>c\<close> is a suspended split create, its
  activation resumes: the response is pushed on \<^verbatim>\<open>allResponses\<close> and the loop goes on.
\<close>

definition resolveCall ::
  "BatchingOptions \<Rightarrow> ('n TanaAPIRequest \<Rightarrow> int) \<Rightarrow> nat \<Rightarrow> 'r TanaAPIResponse
     \<Rightarrow> ('n, 'r) state \<Rightarrow> ('n, 'r) state option" where
  "resolveCall opts jsonLength c response w =
     (case find (\<lambda>s. caller s = c) (splits w) of
        None \<Rightarrow> Some (w\<lparr>settled := settled w @ [(c, Inr response)]\<rparr>)
      | Some s \<Rightarrow>
          handleLargeCreateRequest_loop opts jsonLength
            (s\<lparr>allResponses := allResponses s @ [response]\<rparr>)
            (w\<lparr>splits := filter (\<lambda>s. caller s \<noteq> c) (splits w)\<rparr>))"

text \<open>
  \<^verbatim>\<open>handleRequestError\<close>.  The error is not inspected: the counter goes up, and the
  entry returns to the front after the backoff or its promise is rejected.
\<close>

definition handleRequestError ::
  "BatchingOptions \<Rightarrow> 'n QueuedRequest \<Rightarrow> Error \<Rightarrow> ('n, 'r) state \<Rightarrow> ('n, 'r) state" where
  "handleRequestError opts queuedRequest err w =
     (let q = queuedRequest\<lparr>retryCount := Suc (retryCount queuedRequest)\<rparr>
      in if int (retryCount q) \<le> maxRetries opts
         then (let backoffTime = baseBackoffMs opts * 2 ^ (retryCount q - 1);
                   w1 = sleep backoffTime w
               in w1\<lparr>queue := q # queue w1\<rparr>)
         else rejectCall (promise q) (RetriesFailed (maxRetries opts) err) w)"

text \<open>The test of the \<^verbatim>\<open>while\<close> loop: the worker ends when the list is empty.\<close>

definition whileCheck :: "('n, 'r) state \<Rightarrow> ('n, 'r) state" where
  "whileCheck w = (if queue w = [] then w\<lparr>processing := False\<rparr> else w)"

text \<open>
  \<^verbatim>\<open>// Rate limiting - wait if needed\<close>: the worker sleeps until \<^verbatim>\<open>minInterval\<close> has
  passed since \<^verbatim>\<open>lastRequestTime\<close>.  The quotient is meant for a rate that is not
  zero: for a rate of zero JavaScript computes \<^verbatim>\<open>Infinity\<close> where HOL computes \<open>0\<close>.
  Only the clock depends on it; no statement below about the pending list, the
  promises or the node count does.
\<close>

definition rateLimitWait :: "BatchingOptions \<Rightarrow> ('n, 'r) state \<Rightarrow> ('n, 'r) state" where
  "rateLimitWait opts w =
     (let now = clock w;
          timeSinceLastRequest = now - lastRequestTime w;
          minInterval = 1000 / rateLimit opts
      in if timeSinceLastRequest < minInterval
         then sleep (minInterval - timeSinceLastRequest) w else w)"

text \<open>
  \<^verbatim>\<open>await this.executeRequest(queuedRequest)\<close>: the call of the executor is recorded
  with its time in \<open>dispatched\<close>, and the answer arrives \<open>latency\<close> milliseconds later.
\<close>

definition executeRequest ::
  "'n QueuedRequest \<Rightarrow> rat \<Rightarrow> ('n, 'r) state \<Rightarrow> ('n, 'r) state" where
  "executeRequest queuedRequest latency w =
     sleep latency (w\<lparr>dispatched := dispatched w @ [(clock w, queuedRequest)]\<rparr>)"

text \<open>
  One iteration of the loop of \<^verbatim>\<open>processQueue\<close>, with the outcome of the executor and
  the time it took.  The worker waits for the rate limit, takes the front entry and
  calls the executor.  On success it updates the node count, sets
  \<^verbatim>\<open>lastRequestTime\<close> and resolves; on failure it calls \<^verbatim>\<open>handleRequestError\<close>.  The
  continuation of a resolved promise runs when the worker next suspends, that is
  after the loop test.
\<close>

definition processQueue_iteration ::
  "BatchingOptions \<Rightarrow> ('n TanaAPIRequest \<Rightarrow> int) \<Rightarrow> Error + 'r TanaAPIResponse \<Rightarrow> rat
     \<Rightarrow> ('n, 'r) state \<Rightarrow> ('n, 'r) state option" where
  "processQueue_iteration opts jsonLength outcome latency w =
     (if \<not> processing w then Some w
      else case queue w of
        [] \<Rightarrow> Some (whileCheck w)
      | queuedRequest # rest \<Rightarrow>
          (let w1 = rateLimitWait opts w;
               w2 = executeRequest queuedRequest latency (w1\<lparr>queue := rest\<rparr>)
           in case outcome of
                Inr response \<Rightarrow>
                  (let w3 = updateNodeCount (request queuedRequest) response w2;
                       w4 = w3\<lparr>lastRequestTime := clock w3\<rparr>
                   in resolveCall opts jsonLength (promise queuedRequest) response (whileCheck w4))
              | Inl err \<Rightarrow> Some (whileCheck (handleRequestError opts queuedRequest err w2))))"

subsection \<open>Runs\<close>

text \<open>
  What happens to a queue: a caller calls \<^verbatim>\<open>enqueue\<close>; the worker performs one
  iteration, the executor answering with the given outcome after the given time;
  the count is seeded or reset; time passes.  A step has no value when the call
  does not return.
\<close>

datatype ('n, 'r) event =
    Enqueue "'n TanaAPIRequest"
  | Execute "Error + 'r TanaAPIResponse" rat
  | SetNodeCount int
  | ResetNodeCount
  | Elapse rat

fun step ::
  "BatchingOptions \<Rightarrow> ('n TanaAPIRequest \<Rightarrow> int) \<Rightarrow> ('n, 'r) state \<Rightarrow> ('n, 'r) event
     \<Rightarrow> ('n, 'r) state option" where
  "step opts jsonLength w (Enqueue req) = enqueue opts jsonLength req w"
| "step opts jsonLength w (Execute outcome latency) =
     processQueue_iteration opts jsonLength outcome latency w"
| "step opts jsonLength w (SetNodeCount count) = Some (setNodeCount count w)"
| "step opts jsonLength w ResetNodeCount = Some (resetNodeCount w)"
| "step opts jsonLength w (Elapse ms) = Some (sleep ms w)"

fun run ::
  "BatchingOptions \<Rightarrow> ('n TanaAPIRequest \<Rightarrow> int) \<Rightarrow> ('n, 'r) state \<Rightarrow> ('n, 'r) event list
     \<Rightarrow> ('n, 'r) state option" where
  "run opts jsonLength w [] = Some w"
| "run opts jsonLength w (e # es) =
     (case step opts jsonLength w e of None \<Rightarrow> None | Some w' \<Rightarrow> run opts jsonLength w' es)"

subsection \<open>Auxiliary notions\<close>

text \<open>
  The number of nodes an iteration adds to the count: the children the executor
  reports for a create request, nothing otherwise.
\<close>

definition confirmedNodes :: "'n TanaAPIRequest \<Rightarrow> Error + 'r TanaAPIResponse \<Rightarrow> int" where
  "confirmedNodes req outcome =
     (case outcome of
        Inr response \<Rightarrow> if isCreateNodesRequest req then nodesCreated response else 0
      | Inl err \<Rightarrow> 0)"


text \<open>A stand-in for the serialiser in examples: every request is 100 characters long.\<close>

definition shortPayload :: "'n TanaAPIRequest \<Rightarrow> int" where
  "shortPayload req = 100"

subsection \<open>Notions used in the statements\<close>

text \<open>
  The number of times the executor has been called for the entry with identifier \<open>i\<close>.
\<close>

definition attempts :: "nat \<Rightarrow> ('n, 'r) state \<Rightarrow> nat" where
  "attempts i w = length (filter (\<lambda>d. entryId (snd d) = i) (dispatched w))"

text \<open>
  An upper bound on the number of iterations the worker still needs: every pending
  entry can be dispatched once more than it can still be retried, and every chunk a
  split create has not enqueued yet becomes an entry of its own.
\<close>

definition work :: "BatchingOptions \<Rightarrow> ('n, 'r) state \<Rightarrow> nat" where
  "work opts w =
     sum_list (map (\<lambda>q. Suc (nat (maxRetries opts - int (retryCount q)))) (queue w))
     + sum_list (map (\<lambda>s. length (pendingChunks s) * Suc (nat (maxRetries opts))) (splits w))"

text \<open>
  The nodes that the create requests in the pending list ask for.
\<close>

definition pendingNodes :: "('n, 'r) state \<Rightarrow> int" where
  "pendingNodes w = sum_list (map (\<lambda>q. estimatedNewNodes (request q)) (queue w))"

text \<open>
  A use of the queue in which creates take turns: a create request is enqueued only
  when no create is pending, the executor reports at most as many children as the
  request has nodes, and the count is seeded so that it leaves room for the pending
  nodes.
\<close>

fun allowed :: "BatchingOptions \<Rightarrow> ('n, 'r) state \<Rightarrow> ('n, 'r) event \<Rightarrow> bool" where
  "allowed opts w (Enqueue req) =
     (\<not> isCreateNodesRequest req \<or> list_all (\<lambda>q. \<not> isCreateNodesRequest (request q)) (queue w))"
| "allowed opts w (Execute outcome latency) =
     (case queue w of
        [] \<Rightarrow> True
      | q # rest \<Rightarrow> confirmedNodes (request q) outcome \<le> estimatedNewNodes (request q))"
| "allowed opts w (SetNodeCount count) = (count + pendingNodes w \<le> maxWorkspaceNodes opts)"
| "allowed opts w ResetNodeCount = True"
| "allowed opts w (Elapse ms) = True"

fun one_create_at_a_time ::
  "BatchingOptions \<Rightarrow> ('n TanaAPIRequest \<Rightarrow> int) \<Rightarrow> ('n, 'r) state \<Rightarrow> ('n, 'r) event list
     \<Rightarrow> bool" where
  "one_create_at_a_time opts jsonLength w [] = True"
| "one_create_at_a_time opts jsonLength w (e # es) =
     (allowed opts w e \<and>
      (case step opts jsonLength w e of
         None \<Rightarrow> False
       | Some w' \<Rightarrow> one_create_at_a_time opts jsonLength w' es))"

subsection \<open>Invariants\<close>

text \<open>
  Identifiers grow along the pending list, and no entry that has been dispatched
  is younger than a pending one.
\<close>

definition fifo :: "('n, 'r) state \<Rightarrow> bool" where
  "fifo w \<longleftrightarrow>
     sorted_wrt (<) (map entryId (queue w))
     \<and> list_all (\<lambda>q. entryId q \<le> requestId w) (queue w)
     \<and> sorted (map (\<lambda>d. entryId (snd d)) (dispatched w))
     \<and> list_all (\<lambda>d. entryId (snd d) \<le> requestId w
          \<and> list_all (\<lambda>q. entryId (snd d) \<le> entryId q) (queue w)) (dispatched w)"

text \<open>
  Every call of \<^verbatim>\<open>enqueue\<close> made so far is either completed, once, or owns exactly one
  pending entry; a suspended split create is one of the latter, and none of its
  remaining chunks exceeds the limit.  The worker runs exactly when the list is not
  empty.
\<close>

definition wellformed :: "BatchingOptions \<Rightarrow> ('n, 'r) state \<Rightarrow> bool" where
  "wellformed opts w \<longleftrightarrow>
     distinct (map promise (queue w))
     \<and> distinct (map fst (settled w))
     \<and> distinct (map caller (splits w))
     \<and> promise ` set (queue w) \<inter> fst ` set (settled w) = {}
     \<and> promise ` set (queue w) \<union> fst ` set (settled w) = {..< calls w}
     \<and> caller ` set (splits w) \<subseteq> promise ` set (queue w)
     \<and> list_all (\<lambda>s. list_all (\<lambda>c. int (length c) \<le> maxNodesPerRequest opts) (pendingChunks s))
          (splits w)
     \<and> (processing w \<longleftrightarrow> queue w \<noteq> [])"

text \<open>
  A pending entry has been dispatched as often as its counter says, and the counter
  has not passed \<^verbatim>\<open>maxRetries\<close>.
\<close>

definition retries_bounded :: "BatchingOptions \<Rightarrow> ('n, 'r) state \<Rightarrow> bool" where
  "retries_bounded opts w \<longleftrightarrow>
     distinct (map entryId (queue w))
     \<and> list_all (\<lambda>q. entryId q \<le> requestId w \<and> int (retryCount q) \<le> maxRetries opts
          \<and> attempts (entryId q) w = retryCount q) (queue w)
     \<and> (\<forall>i. int (attempts i w) \<le> maxRetries opts + 1)
     \<and> (\<forall>i. requestId w < i \<longrightarrow> attempts i w = 0)"

text \<open>
  The count together with the pending nodes stays within the ceiling, at most one
  create is pending, and an entry that a split create waits for is a create.
\<close>

definition under_ceiling :: "BatchingOptions \<Rightarrow> ('n, 'r) state \<Rightarrow> bool" where
  "under_ceiling opts w \<longleftrightarrow>
     0 \<le> totalNodeCount w
     \<and> totalNodeCount w + pendingNodes w \<le> maxWorkspaceNodes opts
     \<and> length (filter (\<lambda>q. isCreateNodesRequest (request q)) (queue w)) \<le> 1
     \<and> list_all (\<lambda>q. promise q \<in> caller ` set (splits w) \<longrightarrow> isCreateNodesRequest (request q))
          (queue w)"

subsection \<open>Example runs\<close>

text \<open>
  The executor fails every time; one retry is allowed.
\<close>

definition always_failing :: "(nat, string) event list" where
  "always_failing =
     [Enqueue (SetName ''node'' ''name''),
      Execute (Inl (Transport ''socket hang up'')) 30,
      Execute (Inl (Transport ''socket hang up'')) 30]"

text \<open>
  A create of three nodes (with a limit of two per request) followed by a rename;
  the executor succeeds every time.
\<close>

definition split_then_rename :: "(nat, string) event list" where
  "split_then_rename =
     [Enqueue (CreateNodes None [1, 2, 3]),
      Enqueue (SetName ''node'' ''name''),
      Execute (Inr \<lparr>children = Some [''a'', ''b'']\<rparr>) 5,
      Execute (Inr \<lparr>children = None\<rparr>) 5,
      Execute (Inr \<lparr>children = Some [''c'']\<rparr>) 5]"

text \<open>
  The remote answers 400 to a rename.
\<close>

definition rejected_as_invalid :: "(nat, string) event list" where
  "rejected_as_invalid =
     [Enqueue (SetName ''node'' ''name''),
      Execute (Inl (Transport ''Tana API error: 400 Bad Request'')) 0]"

definition one_pending :: "(nat, string) state" where
  "one_pending = the (run defaultOptions shortPayload initial [Enqueue (SetName ''node'' ''name'')])"

text \<open>
  Two renames under the default options; the first fails four times within 10 ms
  each, the second succeeds.
\<close>

definition failing_then_next :: "(nat, string) event list" where
  "failing_then_next =
     [Elapse 5000,
      Enqueue (SetName ''first'' ''a''),
      Enqueue (SetName ''second'' ''b''),
      Execute (Inl (Transport ''socket hang up'')) 10,
      Execute (Inl (Transport ''socket hang up'')) 10,
      Execute (Inl (Transport ''socket hang up'')) 10,
      Execute (Inl (Transport ''socket hang up'')) 10,
      Execute (Inr \<lparr>children = None\<rparr>) 10]"

text \<open>
  A create of three nodes with a limit of one per request and no retries: the
  first chunk succeeds, the second is refused by the remote.
\<close>

definition split_with_failure :: "(nat, string) event list" where
  "split_with_failure =
     [Enqueue (CreateNodes None [1, 2, 3]),
      Execute (Inr \<lparr>children = Some [''a'']\<rparr>) 5,
      Execute (Inl (Transport ''Tana API error: 400 Bad Request'')) 5,
      Execute (Inr \<lparr>children = Some [''c'']\<rparr>) 5]"

definition second_chunk_pending :: "(nat, string) state" where
  "second_chunk_pending =
     the (run (defaultOptions\<lparr>maxNodesPerRequest := 1, maxRetries := 0\<rparr>) shortPayload initial
       [Enqueue (CreateNodes None [1, 2, 3]), Execute (Inr \<lparr>children = Some [''a'']\<rparr>) 5])"

text \<open>
  A split create and a rename are pending; the executor answers in turn.
\<close>

definition two_pending :: "(nat, string) state" where
  "two_pending =
     the (run (defaultOptions\<lparr>maxNodesPerRequest := 2, maxRetries := 1\<rparr>) shortPayload initial
       [Enqueue (CreateNodes None [1, 2, 3]), Enqueue (SetName ''node'' ''name'')])"

definition mixed_outcomes :: "((Error + string TanaAPIResponse) \<times> rat) list" where
  "mixed_outcomes =
     [(Inr \<lparr>children = Some [''a'', ''b'']\<rparr>, 5),
      (Inl (Transport ''socket hang up''), 5),
      (Inl (Transport ''socket hang up''), 5),
      (Inr \<lparr>children = Some [''c'']\<rparr>, 5),
      (Inl (Transport ''socket hang up''), 5),
      (Inl (Transport ''socket hang up''), 5)]"

text \<open>
  Two creates of five nodes each, with a ceiling of eight: both enqueued before the
  first is dispatched, or one after the other.
\<close>

definition two_creates :: "(nat, string) event list" where
  "two_creates =
     [Enqueue (CreateNodes None [1, 2, 3, 4, 5]),
      Enqueue (CreateNodes None [6, 7, 8, 9, 10]),
      Execute (Inr \<lparr>children = Some [''a'', ''b'', ''c'', ''d'', ''e'']\<rparr>) 5,
      Execute (Inr \<lparr>children = Some [''f'', ''g'', ''h'', ''i'', ''j'']\<rparr>) 5]"

definition creates_in_turn :: "(nat, string) event list" where
  "creates_in_turn =
     [SetNodeCount 2,
      Enqueue (CreateNodes None [1, 2, 3, 4, 5]),
      Execute (Inr \<lparr>children = Some [''a'', ''b'', ''c'', ''d'', ''e'']\<rparr>) 5,
      Enqueue (CreateNodes None [6, 7, 8, 9, 10]),
      Enqueue (CreateNodes None [6]),
      Execute (Inr \<lparr>children = Some [''f'']\<rparr>) 5]"

section \<open>Lemmas\<close>

subsection \<open>Chunks\<close>

lemma slice_chunk:
  assumes "0 \<le> i" "0 < k"
  shows "slice xs i (i + k) = take (nat k) (drop (nat i) xs)"
proof -
  have "nat (i + k) = nat i + nat k" using assms by (simp add: nat_add_distrib)
  then show ?thesis using assms
    by (auto simp: slice_def Let_def min_def max_def nat_diff_distrib)
qed

lemma chunkNodes_loop_pos:
  assumes k: "0 < k"
  shows "0 \<le> i \<Longrightarrow> \<exists>cs. chunkNodes_loop nodes k i acc = Some (acc @ cs)
          \<and> concat cs = drop (nat i) nodes
          \<and> (\<forall>c \<in> set cs. c \<noteq> [] \<and> int (length c) \<le> k)
          \<and> (\<forall>c \<in> set (butlast cs). int (length c) = k)"
proof (induction "length nodes - nat i" arbitrary: i acc rule: less_induct)
  case less
  show ?case
  proof (cases "i < int (length nodes)")
    case False
    then have "chunkNodes_loop nodes k i acc = Some acc"
      by (subst chunkNodes_loop.simps) simp
    with False less.prems show ?thesis by simp
  next
    case True
    let ?s = "slice nodes i (i + k)"
    have s: "?s = take (nat k) (drop (nat i) nodes)"
      using less.prems k by (rule slice_chunk)
    have dec: "length nodes - nat (i + k) < length nodes - nat i"
      using True less.prems k by linarith
    have "0 \<le> i + k" using less.prems k by simp
    from less.hyps[OF dec this, of "acc @ [?s]"]
    obtain cs where cs: "chunkNodes_loop nodes k (i + k) (acc @ [?s]) = Some ((acc @ [?s]) @ cs)"
      "concat cs = drop (nat (i + k)) nodes"
      "\<forall>c \<in> set cs. c \<noteq> [] \<and> int (length c) \<le> k"
      "\<forall>c \<in> set (butlast cs). int (length c) = k"
      by blast
    have unf: "chunkNodes_loop nodes k i acc = chunkNodes_loop nodes k (i + k) (acc @ [?s])"
      using True by (subst chunkNodes_loop.simps) simp
    have ne: "?s \<noteq> []" using True less.prems k by (simp add: s)
    have le: "int (length ?s) \<le> k" using k by (simp add: s)
    have nat_add: "nat (i + k) = nat i + nat k" using less.prems k by (simp add: nat_add_distrib)
    have cc: "concat (?s # cs) = drop (nat i) nodes"
      by (simp add: cs(2) s nat_add) (metis add.commute append_take_drop_id drop_drop)
    have full: "cs \<noteq> [] \<Longrightarrow> int (length ?s) = k"
    proof -
      assume "cs \<noteq> []"
      then obtain c where "c \<in> set cs" by (cases cs) auto
      with cs(3) have "c \<noteq> []" by blast
      with \<open>c \<in> set cs\<close> have "concat cs \<noteq> []" by auto
      then have "nat (i + k) < length nodes" by (simp add: cs(2))
      then show ?thesis using less.prems k by (simp add: s nat_add)
    qed
    have "\<forall>c \<in> set (butlast (?s # cs)). int (length c) = k"
      using cs(4) full by auto
    moreover have "\<forall>c \<in> set (?s # cs). c \<noteq> [] \<and> int (length c) \<le> k"
      using cs(3) ne le by auto
    moreover have "chunkNodes_loop nodes k i acc = Some (acc @ (?s # cs))"
      using unf cs(1) by simp
    ultimately show ?thesis using cc by blast
  qed
qed

lemma chunkNodes_pos:
  assumes "0 < k"
  shows "\<exists>cs. chunkNodes nodes k = Some cs \<and> concat cs = nodes
          \<and> (\<forall>c \<in> set cs. c \<noteq> [] \<and> int (length c) \<le> k)
          \<and> (\<forall>c \<in> set (butlast cs). int (length c) = k)"
  using chunkNodes_loop_pos[OF assms, of 0 nodes "[]"] by (simp add: chunkNodes_def)

lemma combineResponses_loop_all:
  "combineResponses_loop acc (map (\<lambda>cs. \<lparr>children = Some cs\<rparr>) css) = acc @ concat css"
  by (induction css arbitrary: acc) auto

lemma chunkNodes_loop_diverges:
  assumes "chunkNodes_loop nodes k i acc = Some r"
  shows "0 < k \<or> int (length nodes) \<le> i"
proof (rule chunkNodes_loop.raw_induct[where P = "\<lambda>nodes k i acc r. 0 < k \<or> int (length nodes) \<le> i", OF _ assms])
  fix f and nodes :: "'a list" and k i chunks r
  assume ih: "\<And>nodes k i chunks r. f nodes k i chunks = Some r \<Longrightarrow> 0 < k \<or> int (length nodes) \<le> i"
    and eq: "(if i < int (length nodes) then f nodes k (i + k) (chunks @ [slice nodes i (i + k)]) else Some chunks) = Some r"
  show "0 < k \<or> int (length nodes) \<le> i"
  proof (cases "i < int (length nodes)")
    case True
    with eq have "f nodes k (i + k) (chunks @ [slice nodes i (i + k)]) = Some r" by simp
    from ih[OF this] True show ?thesis by linarith
  next
    case False
    then show ?thesis by simp
  qed
qed


subsection \<open>The fields after each method\<close>

lemma sleep_fields [simp]:
  "queue (sleep ms w) = queue w"
  "processing (sleep ms w) = processing w"
  "lastRequestTime (sleep ms w) = lastRequestTime w"
  "totalNodeCount (sleep ms w) = totalNodeCount w"
  "requestId (sleep ms w) = requestId w"
  "clock (sleep ms w) = clock w + max 0 ms"
  "calls (sleep ms w) = calls w"
  "splits (sleep ms w) = splits w"
  "settled (sleep ms w) = settled w"
  "dispatched (sleep ms w) = dispatched w"
  by (simp_all add: sleep_def)

lemma rateLimitWait_fields [simp]:
  "queue (rateLimitWait opts w) = queue w"
  "processing (rateLimitWait opts w) = processing w"
  "lastRequestTime (rateLimitWait opts w) = lastRequestTime w"
  "totalNodeCount (rateLimitWait opts w) = totalNodeCount w"
  "requestId (rateLimitWait opts w) = requestId w"
  "calls (rateLimitWait opts w) = calls w"
  "splits (rateLimitWait opts w) = splits w"
  "settled (rateLimitWait opts w) = settled w"
  "dispatched (rateLimitWait opts w) = dispatched w"
  by (simp_all add: rateLimitWait_def Let_def)

lemma executeRequest_fields [simp]:
  "queue (executeRequest q latency w) = queue w"
  "processing (executeRequest q latency w) = processing w"
  "lastRequestTime (executeRequest q latency w) = lastRequestTime w"
  "totalNodeCount (executeRequest q latency w) = totalNodeCount w"
  "requestId (executeRequest q latency w) = requestId w"
  "clock (executeRequest q latency w) = clock w + max 0 latency"
  "calls (executeRequest q latency w) = calls w"
  "splits (executeRequest q latency w) = splits w"
  "settled (executeRequest q latency w) = settled w"
  "dispatched (executeRequest q latency w) = dispatched w @ [(clock w, q)]"
  by (simp_all add: executeRequest_def)

lemma updateNodeCount_fields [simp]:
  "queue (updateNodeCount req response w) = queue w"
  "processing (updateNodeCount req response w) = processing w"
  "lastRequestTime (updateNodeCount req response w) = lastRequestTime w"
  "totalNodeCount (updateNodeCount req response w) = totalNodeCount w + (if isCreateNodesRequest req then nodesCreated response else 0)"
  "requestId (updateNodeCount req response w) = requestId w"
  "clock (updateNodeCount req response w) = clock w"
  "calls (updateNodeCount req response w) = calls w"
  "splits (updateNodeCount req response w) = splits w"
  "settled (updateNodeCount req response w) = settled w"
  "dispatched (updateNodeCount req response w) = dispatched w"
  by (simp_all add: updateNodeCount_def)

lemma whileCheck_fields [simp]:
  "queue (whileCheck w) = queue w"
  "processing (whileCheck w) = (processing w \<and> queue w \<noteq> [])"
  "lastRequestTime (whileCheck w) = lastRequestTime w"
  "totalNodeCount (whileCheck w) = totalNodeCount w"
  "requestId (whileCheck w) = requestId w"
  "clock (whileCheck w) = clock w"
  "calls (whileCheck w) = calls w"
  "splits (whileCheck w) = splits w"
  "settled (whileCheck w) = settled w"
  "dispatched (whileCheck w) = dispatched w"
  by (simp_all add: whileCheck_def)

lemma processQueue_fields [simp]:
  "queue (processQueue w) = queue w"
  "processing (processQueue w) = (processing w \<or> queue w \<noteq> [])"
  "lastRequestTime (processQueue w) = lastRequestTime w"
  "totalNodeCount (processQueue w) = totalNodeCount w"
  "requestId (processQueue w) = requestId w"
  "clock (processQueue w) = clock w"
  "calls (processQueue w) = calls w"
  "splits (processQueue w) = splits w"
  "settled (processQueue w) = settled w"
  "dispatched (processQueue w) = dispatched w"
  by (simp_all add: processQueue_def)

lemma pushRequest_fields [simp]:
  "queue (pushRequest c req w) = queue w @ [\<lparr>entryId = Suc (requestId w), request = req, promise = c, timestamp = clock w, retryCount = 0\<rparr>]"
  "processing (pushRequest c req w) = True"
  "lastRequestTime (pushRequest c req w) = lastRequestTime w"
  "totalNodeCount (pushRequest c req w) = totalNodeCount w"
  "requestId (pushRequest c req w) = Suc (requestId w)"
  "clock (pushRequest c req w) = clock w"
  "calls (pushRequest c req w) = calls w"
  "splits (pushRequest c req w) = splits w"
  "settled (pushRequest c req w) = settled w"
  "dispatched (pushRequest c req w) = dispatched w"
  by (simp_all add: pushRequest_def)

lemma rejectCall_fields [simp]:
  "queue (rejectCall c err w) = queue w"
  "processing (rejectCall c err w) = processing w"
  "lastRequestTime (rejectCall c err w) = lastRequestTime w"
  "totalNodeCount (rejectCall c err w) = totalNodeCount w"
  "requestId (rejectCall c err w) = requestId w"
  "clock (rejectCall c err w) = clock w"
  "calls (rejectCall c err w) = calls w"
  "splits (rejectCall c err w) = filter (\<lambda>s. caller s \<noteq> c) (splits w)"
  "settled (rejectCall c err w) = settled w @ [(c, Inl err)]"
  "dispatched (rejectCall c err w) = dispatched w"
  by (simp_all add: rejectCall_def)

lemma setNodeCount_fields [simp]:
  "queue (setNodeCount count w) = queue w"
  "processing (setNodeCount count w) = processing w"
  "lastRequestTime (setNodeCount count w) = lastRequestTime w"
  "totalNodeCount (setNodeCount count w) = max 0 count"
  "requestId (setNodeCount count w) = requestId w"
  "clock (setNodeCount count w) = clock w"
  "calls (setNodeCount count w) = calls w"
  "splits (setNodeCount count w) = splits w"
  "settled (setNodeCount count w) = settled w"
  "dispatched (setNodeCount count w) = dispatched w"
  by (simp_all add: setNodeCount_def)

lemma resetNodeCount_fields [simp]:
  "queue (resetNodeCount w) = queue w"
  "processing (resetNodeCount w) = processing w"
  "lastRequestTime (resetNodeCount w) = lastRequestTime w"
  "totalNodeCount (resetNodeCount w) = 0"
  "requestId (resetNodeCount w) = requestId w"
  "clock (resetNodeCount w) = clock w"
  "calls (resetNodeCount w) = calls w"
  "splits (resetNodeCount w) = splits w"
  "settled (resetNodeCount w) = settled w"
  "dispatched (resetNodeCount w) = dispatched w"
  by (simp_all add: resetNodeCount_def)

lemma find_None_filter:
  "find (\<lambda>s. caller s = c) xs = None \<Longrightarrow> filter (\<lambda>s. caller s \<noteq> c) xs = xs"
  by (induction xs) (auto split: if_splits)

lemma awaitChunk_cases [consumes 1, case_names Denied Pushed]:
  assumes "awaitChunk opts js s chunk w = Some w'"
  obtains
    (Denied) err where
      "admission opts js w (CreateNodes (targetNodeId s) chunk) = Some err"
      "w' = rejectCall (caller s) err w"
  | (Pushed)
      "admission opts js w (CreateNodes (targetNodeId s) chunk) = None"
      "int (length chunk) \<le> maxNodesPerRequest opts"
      "w' = pushRequest (caller s) (CreateNodes (targetNodeId s) chunk) (w\<lparr>splits := splits w @ [s]\<rparr>)"
  using assms by (auto simp: awaitChunk_def Let_def split: option.splits if_splits)

lemma loop_cases [consumes 1, case_names Combined Denied Pushed]:
  assumes "handleLargeCreateRequest_loop opts js s w = Some w'"
  obtains
    (Combined)
      "pendingChunks s = []"
      "w' = w\<lparr>settled := settled w @ [(caller s, Inr (combineResponses (allResponses s)))]\<rparr>"
  | (Denied) chunk remaining err where
      "pendingChunks s = chunk # remaining"
      "admission opts js w (CreateNodes (targetNodeId s) chunk) = Some err"
      "w' = rejectCall (caller s) err w"
  | (Pushed) chunk remaining where
      "pendingChunks s = chunk # remaining"
      "admission opts js w (CreateNodes (targetNodeId s) chunk) = None"
      "int (length chunk) \<le> maxNodesPerRequest opts"
      "w' = pushRequest (caller s) (CreateNodes (targetNodeId s) chunk)
              (w\<lparr>splits := splits w @ [s\<lparr>pendingChunks := remaining\<rparr>]\<rparr>)"
proof (cases "pendingChunks s")
  case Nil
  with assms show ?thesis by (auto simp: handleLargeCreateRequest_loop_def intro: Combined)
next
  case (Cons chunk remaining)
  with assms have "awaitChunk opts js (s\<lparr>pendingChunks := remaining\<rparr>) chunk w = Some w'"
    by (simp add: handleLargeCreateRequest_loop_def)
  then show ?thesis
    by (cases rule: awaitChunk_cases) (use Cons in \<open>auto intro: Denied Pushed\<close>)
qed


lemma find_Some_caller: "find (\<lambda>s. caller s = c) xs = Some s \<Longrightarrow> caller s = c \<and> s \<in> set xs"
  by (induction xs) (auto split: if_splits)

lemma resolveCall_cases [consumes 1, case_names Settled Pushed]:
  assumes "resolveCall opts js c response w = Some w'"
  obtains
    (Settled) res where
      "w' = w\<lparr>splits := filter (\<lambda>s. caller s \<noteq> c) (splits w), settled := settled w @ [(c, res)]\<rparr>"
  | (Pushed) s chunk remaining where
      "find (\<lambda>s. caller s = c) (splits w) = Some s"
      "pendingChunks s = chunk # remaining"
      "admission opts js w (CreateNodes (targetNodeId s) chunk) = None"
      "int (length chunk) \<le> maxNodesPerRequest opts"
      "w' = pushRequest c (CreateNodes (targetNodeId s) chunk)
              (w\<lparr>splits := filter (\<lambda>s. caller s \<noteq> c) (splits w)
                   @ [s\<lparr>pendingChunks := remaining, allResponses := allResponses s @ [response]\<rparr>]\<rparr>)"
proof (cases "find (\<lambda>s. caller s = c) (splits w)")
  case None
  with assms have "w' = w\<lparr>settled := settled w @ [(c, Inr response)]\<rparr>"
    by (simp add: resolveCall_def)
  with find_None_filter[OF None] show ?thesis by (intro Settled[of "Inr response"]) simp
next
  case (Some s)
  have c: "caller s = c" using find_Some_caller[OF Some] by simp
  from assms Some have
    "handleLargeCreateRequest_loop opts js (s\<lparr>allResponses := allResponses s @ [response]\<rparr>)
       (w\<lparr>splits := filter (\<lambda>s. caller s \<noteq> c) (splits w)\<rparr>) = Some w'"
    by (simp add: resolveCall_def)
  then show ?thesis
  proof (cases rule: loop_cases)
    case Combined
    then show ?thesis using c by (intro Settled) simp
  next
    case (Denied chunk remaining err)
    then show ?thesis using c
      by (intro Settled[of "Inl err"]) (simp add: rejectCall_def)
  next
    case (Pushed chunk remaining)
    then show ?thesis using c Some
      by (intro that(2)[of s chunk remaining]) (simp_all add: admission_def split: if_splits)
  qed
qed

lemma iteration_idle:
  "\<not> processing w \<Longrightarrow> processQueue_iteration opts js outcome latency w = Some w"
  "queue w = [] \<Longrightarrow> \<exists>w'. processQueue_iteration opts js outcome latency w = Some w'
       \<and> w' = w\<lparr>processing := False\<rparr>"
  by (simp_all add: processQueue_iteration_def whileCheck_def)

lemma iteration_cases [consumes 3, case_names Retry Settled Pushed]:
  assumes "processQueue_iteration opts js outcome latency w = Some w'"
    and "processing w" and "queue w = q # rest"
  obtains
    (Retry) err where
      "outcome = Inl err" "int (Suc (retryCount q)) \<le> maxRetries opts"
      "queue w' = q\<lparr>retryCount := Suc (retryCount q)\<rparr> # rest"
      "splits w' = splits w" "settled w' = settled w"
      "totalNodeCount w' = totalNodeCount w" "requestId w' = requestId w" "calls w' = calls w"
      "dispatched w' = dispatched w @ [(clock (rateLimitWait opts w), q)]"
      "processing w'"
  | (Settled) res where
      "queue w' = rest"
      "splits w' = filter (\<lambda>s. caller s \<noteq> promise q) (splits w)"
      "settled w' = settled w @ [(promise q, res)]"
      "totalNodeCount w' = totalNodeCount w + confirmedNodes (request q) outcome"
      "requestId w' = requestId w" "calls w' = calls w"
      "dispatched w' = dispatched w @ [(clock (rateLimitWait opts w), q)]"
      "processing w' = (rest \<noteq> [])"
  | (Pushed) response s chunk remaining ts where
      "outcome = Inr response"
      "find (\<lambda>s. caller s = promise q) (splits w) = Some s"
      "pendingChunks s = chunk # remaining"
      "queue w' = rest @ [\<lparr>entryId = Suc (requestId w),
          request = CreateNodes (targetNodeId s) chunk, promise = promise q,
          timestamp = ts, retryCount = 0\<rparr>]"
      "splits w' = filter (\<lambda>s. caller s \<noteq> promise q) (splits w)
          @ [s\<lparr>pendingChunks := remaining, allResponses := allResponses s @ [response]\<rparr>]"
      "settled w' = settled w"
      "totalNodeCount w' = totalNodeCount w + confirmedNodes (request q) outcome"
      "totalNodeCount w' + int (length chunk) \<le> maxWorkspaceNodes opts"
      "int (length chunk) \<le> maxNodesPerRequest opts"
      "requestId w' = Suc (requestId w)" "calls w' = calls w"
      "dispatched w' = dispatched w @ [(clock (rateLimitWait opts w), q)]"
      "processing w'"
proof (cases outcome)
  case (Inl err)
  define B where "B = executeRequest q latency ((rateLimitWait opts w)\<lparr>queue := rest\<rparr>)"
  have w': "w' = whileCheck (handleRequestError opts q err B)"
    using assms Inl by (simp add: processQueue_iteration_def Let_def B_def)
  have B: "queue B = rest" "splits B = splits w" "settled B = settled w"
    "totalNodeCount B = totalNodeCount w" "requestId B = requestId w" "calls B = calls w"
    "dispatched B = dispatched w @ [(clock (rateLimitWait opts w), q)]" "processing B"
    using assms(2) by (simp_all add: B_def)
  show ?thesis
  proof (cases "int (Suc (retryCount q)) \<le> maxRetries opts")
    case True
    then have h: "handleRequestError opts q err B =
        (sleep (baseBackoffMs opts * 2 ^ retryCount q) B)\<lparr>queue := q\<lparr>retryCount := Suc (retryCount q)\<rparr> # queue B\<rparr>"
      by (simp add: handleRequestError_def Let_def)
    show ?thesis
      by (rule Retry[of err]) (use True in \<open>simp_all add: Inl w' h B\<close>)
  next
    case False
    then have h: "handleRequestError opts q err B =
        rejectCall (promise q) (RetriesFailed (maxRetries opts) err) B"
      by (simp add: handleRequestError_def Let_def)
    show ?thesis
      by (rule Settled[of "Inl (RetriesFailed (maxRetries opts) err)"])
         (simp_all add: Inl w' h B confirmedNodes_def)
  qed
next
  case (Inr response)
  define B where "B = executeRequest q latency ((rateLimitWait opts w)\<lparr>queue := rest\<rparr>)"
  define w4 where "w4 = whileCheck ((updateNodeCount (request q) response B)
      \<lparr>lastRequestTime := clock (updateNodeCount (request q) response B)\<rparr>)"
  have res: "resolveCall opts js (promise q) response w4 = Some w'"
    using assms Inr by (simp add: processQueue_iteration_def Let_def w4_def B_def)
  have f: "queue w4 = rest" "splits w4 = splits w" "settled w4 = settled w"
    "totalNodeCount w4 = totalNodeCount w + confirmedNodes (request q) outcome"
    "requestId w4 = requestId w" "calls w4 = calls w"
    "dispatched w4 = dispatched w @ [(clock (rateLimitWait opts w), q)]"
    "processing w4 = (rest \<noteq> [])"
    using assms(2) Inr by (simp_all add: w4_def B_def confirmedNodes_def)
  from res show ?thesis
  proof (cases rule: resolveCall_cases)
    case (Settled res)
    show ?thesis
      by (rule that(2)[of res]) (simp_all add: Settled f)
  next
    case (Pushed s chunk remaining)
    have adm: "totalNodeCount w4 + int (length chunk) \<le> maxWorkspaceNodes opts"
      using Pushed(3) by (simp add: admission_def split: if_splits)
    show ?thesis
      by (rule that(3)[of response s chunk remaining "clock w4"])
         (use Pushed(1,2,4) adm in \<open>simp_all add: Pushed(5) f Inr\<close>)
  qed
qed

lemma chunkNodes_within_limit:
  assumes "chunkNodes ns k = Some cs"
  shows "\<forall>c \<in> set cs. int (length c) \<le> k"
proof (cases "0 < k")
  case True
  from chunkNodes_pos[OF True, of ns] assms show ?thesis by auto
next
  case False
  from assms have "chunkNodes_loop ns k 0 [] = Some cs" by (simp add: chunkNodes_def)
  from chunkNodes_loop_diverges[OF this] False have "ns = []" by simp
  then have "chunkNodes ns k = Some []"
    by (simp add: chunkNodes_def chunkNodes_loop.simps)
  with assms show ?thesis by simp
qed

lemma enqueue_cases [consumes 1, case_names Rejected Empty Plain Chunk]:
  assumes "enqueue opts js req w = Some w'"
  obtains
    (Rejected) err where
      "w' = rejectCall (calls w) err (w\<lparr>calls := Suc (calls w)\<rparr>)"
  | (Empty)
      "w' = w\<lparr>calls := Suc (calls w),
              settled := settled w @ [(calls w, Inr (combineResponses []))]\<rparr>"
  | (Plain)
      "admission opts js w req = None"
      "w' = pushRequest (calls w) req (w\<lparr>calls := Suc (calls w)\<rparr>)"
  | (Chunk) target ns chunk remaining where
      "req = CreateNodes target ns"
      "chunkNodes ns (maxNodesPerRequest opts) = Some (chunk # remaining)"
      "admission opts js w (CreateNodes target chunk) = None"
      "w' = pushRequest (calls w) (CreateNodes target chunk)
              (w\<lparr>calls := Suc (calls w),
                 splits := splits w @ [\<lparr>caller = calls w, targetNodeId = target,
                   pendingChunks = remaining, allResponses = []\<rparr>]\<rparr>)"
proof (cases "admission opts js w req")
  case (Some err)
  with assms show ?thesis by (intro Rejected[of err]) (simp add: enqueue_def Let_def)
next
  case None
  show ?thesis
  proof (cases "\<exists>target ns. req = CreateNodes target ns \<and> int (length ns) > maxNodesPerRequest opts")
    case False
    with assms None have "w' = pushRequest (calls w) req (w\<lparr>calls := Suc (calls w)\<rparr>)"
      by (cases req) (auto simp: enqueue_def Let_def)
    with None show ?thesis by (intro Plain)
  next
    case True
    then obtain target ns where req: "req = CreateNodes target ns"
      and big: "int (length ns) > maxNodesPerRequest opts" by blast
    from assms None req big
    have h: "handleLargeCreateRequest opts js (calls w) target ns (w\<lparr>calls := Suc (calls w)\<rparr>) = Some w'"
      by (simp add: enqueue_def Let_def)
    then obtain chunks where ch: "chunkNodes ns (maxNodesPerRequest opts) = Some chunks"
      and l: "handleLargeCreateRequest_loop opts js
            \<lparr>caller = calls w, targetNodeId = target, pendingChunks = chunks, allResponses = []\<rparr>
            (w\<lparr>calls := Suc (calls w)\<rparr>) = Some w'"
      by (auto simp: handleLargeCreateRequest_def split: option.splits)
    from l show ?thesis
    proof (cases rule: loop_cases)
      case Combined
      then show ?thesis by (intro Empty) simp
    next
      case (Denied chunk remaining err)
      then show ?thesis by (intro Rejected[of err]) simp
    next
      case (Pushed chunk remaining)
      then show ?thesis using req ch
        by (intro Chunk[of target ns chunk remaining]) (simp_all add: admission_def split: if_splits)
    qed
  qed
qed

lemma run_invariant:
  assumes "run opts js w0 evs = Some w" and "P w0"
    and "\<And>w e w'. P w \<Longrightarrow> step opts js w e = Some w' \<Longrightarrow> P w'"
  shows "P w"
  using assms(1,2)
proof (induction evs arbitrary: w0)
  case Nil
  then show ?case by simp
next
  case (Cons e es)
  then obtain w1 where "step opts js w0 e = Some w1" "run opts js w1 es = Some w"
    by (auto split: option.splits)
  with Cons assms(3) show ?case by blast
qed

lemma enqueue_totalNodeCount:
  "enqueue opts js req w = Some w' \<Longrightarrow> totalNodeCount w' = totalNodeCount w"
  by (cases rule: enqueue_cases) auto

lemma iteration_totalNodeCount:
  assumes "processQueue_iteration opts js outcome latency w = Some w'"
  shows "totalNodeCount w \<le> totalNodeCount w'"
proof (cases "processing w")
  case False
  with assms show ?thesis by (simp add: iteration_idle(1))
next
  case True
  show ?thesis
  proof (cases "queue w")
    case Nil
    with assms True show ?thesis by (auto simp: processQueue_iteration_def)
  next
    case (Cons q rest)
    have "0 \<le> confirmedNodes (request q) outcome"
      by (auto simp: confirmedNodes_def nodesCreated_def split: sum.splits option.splits)
    with assms True Cons show ?thesis
      by (cases rule: iteration_cases) auto
  qed
qed

lemma step_nonneg:
  assumes "0 \<le> totalNodeCount w" "step opts js w e = Some w'"
  shows "0 \<le> totalNodeCount w'"
proof (cases e)
  case (Enqueue req)
  with assms show ?thesis by (simp add: enqueue_totalNodeCount)
next
  case (Execute outcome latency)
  with assms iteration_totalNodeCount[of opts js outcome latency w w'] show ?thesis by simp
qed (use assms in auto)

lemma run_append:
  "run opts js w (xs @ ys) =
     (case run opts js w xs of None \<Rightarrow> None | Some w1 \<Rightarrow> run opts js w1 ys)"
  by (induction xs arbitrary: w) (auto split: option.splits)

lemma enqueue_denied:
  assumes "maxWorkspaceNodes opts < totalNodeCount w + estimatedNewNodes req
      \<or> maxPayloadSize opts < js req"
  shows "\<exists>err. enqueue opts js req w = Some (rejectCall (calls w) err (w\<lparr>calls := Suc (calls w)\<rparr>))"
  using assms by (auto simp: enqueue_def admission_def Let_def)

lemma run_denied:
  assumes "list_all (\<lambda>r. maxWorkspaceNodes opts < totalNodeCount w + estimatedNewNodes r
      \<or> maxPayloadSize opts < js r) rs"
  shows "\<exists>w'. run opts js w (map Enqueue rs) = Some w'
     \<and> queue w' = queue w \<and> processing w' = processing w
     \<and> lastRequestTime w' = lastRequestTime w \<and> totalNodeCount w' = totalNodeCount w
     \<and> requestId w' = requestId w \<and> dispatched w' = dispatched w \<and> clock w' = clock w
     \<and> calls w' = calls w + length rs
     \<and> length (settled w') = length (settled w) + length rs
     \<and> (rs \<noteq> [] \<longrightarrow> (\<exists>err. last (settled w') = (calls w + length rs - 1, Inl err)))"
  using assms
proof (induction rs arbitrary: w)
  case Nil
  then show ?case by simp
next
  case (Cons r rs)
  from Cons.prems have d: "maxWorkspaceNodes opts < totalNodeCount w + estimatedNewNodes r
      \<or> maxPayloadSize opts < js r" by simp
  from enqueue_denied[where js = js, OF d] obtain err where
    e: "enqueue opts js r w = Some (rejectCall (calls w) err (w\<lparr>calls := Suc (calls w)\<rparr>))"
    by blast
  let ?w1 = "rejectCall (calls w) err (w\<lparr>calls := Suc (calls w)\<rparr>)"
  have "list_all (\<lambda>r. maxWorkspaceNodes opts < totalNodeCount ?w1 + estimatedNewNodes r
      \<or> maxPayloadSize opts < js r) rs"
    using Cons.prems by simp
  from Cons.IH[OF this] obtain w' where w': "run opts js ?w1 (map Enqueue rs) = Some w'"
     "queue w' = queue ?w1" "processing w' = processing ?w1"
     "lastRequestTime w' = lastRequestTime ?w1" "totalNodeCount w' = totalNodeCount ?w1"
     "requestId w' = requestId ?w1" "dispatched w' = dispatched ?w1" "clock w' = clock ?w1"
     "calls w' = calls ?w1 + length rs"
     "length (settled w') = length (settled ?w1) + length rs"
     "rs \<noteq> [] \<longrightarrow> (\<exists>err. last (settled w') = (calls ?w1 + length rs - 1, Inl err))"
    by blast
  have "\<exists>err. last (settled w') = (calls w + length (r # rs) - 1, Inl err)"
  proof (cases rs)
    case Nil
    with w'(1) show ?thesis by auto
  next
    case (Cons a list)
    with w'(11) show ?thesis by simp
  qed
  with w' e show ?case by simp
qed

lemma execute_cases [consumes 1, case_names Idle Retry Settled Pushed]:
  assumes "processQueue_iteration opts js outcome latency w = Some w'"
  obtains
    (Idle)
      "\<not> processing w \<or> queue w = []"
      "queue w' = queue w" "splits w' = splits w" "settled w' = settled w"
      "totalNodeCount w' = totalNodeCount w" "requestId w' = requestId w" "calls w' = calls w"
      "dispatched w' = dispatched w" "processing w' = (processing w \<and> queue w \<noteq> [])"
  | (Retry) q rest err where
      "processing w" "queue w = q # rest"
      "outcome = Inl err" "int (Suc (retryCount q)) \<le> maxRetries opts"
      "queue w' = q\<lparr>retryCount := Suc (retryCount q)\<rparr> # rest"
      "splits w' = splits w" "settled w' = settled w"
      "totalNodeCount w' = totalNodeCount w" "requestId w' = requestId w" "calls w' = calls w"
      "dispatched w' = dispatched w @ [(clock (rateLimitWait opts w), q)]"
      "processing w'"
  | (Settled) q rest res where
      "processing w" "queue w = q # rest"
      "queue w' = rest"
      "splits w' = filter (\<lambda>s. caller s \<noteq> promise q) (splits w)"
      "settled w' = settled w @ [(promise q, res)]"
      "totalNodeCount w' = totalNodeCount w + confirmedNodes (request q) outcome"
      "requestId w' = requestId w" "calls w' = calls w"
      "dispatched w' = dispatched w @ [(clock (rateLimitWait opts w), q)]"
      "processing w' = (rest \<noteq> [])"
  | (Pushed) q rest response s chunk remaining ts where
      "processing w" "queue w = q # rest"
      "outcome = Inr response"
      "find (\<lambda>s. caller s = promise q) (splits w) = Some s"
      "pendingChunks s = chunk # remaining"
      "queue w' = rest @ [\<lparr>entryId = Suc (requestId w),
          request = CreateNodes (targetNodeId s) chunk, promise = promise q,
          timestamp = ts, retryCount = 0\<rparr>]"
      "splits w' = filter (\<lambda>s. caller s \<noteq> promise q) (splits w)
          @ [s\<lparr>pendingChunks := remaining, allResponses := allResponses s @ [response]\<rparr>]"
      "settled w' = settled w"
      "totalNodeCount w' = totalNodeCount w + confirmedNodes (request q) outcome"
      "totalNodeCount w' + int (length chunk) \<le> maxWorkspaceNodes opts"
      "int (length chunk) \<le> maxNodesPerRequest opts"
      "requestId w' = Suc (requestId w)" "calls w' = calls w"
      "dispatched w' = dispatched w @ [(clock (rateLimitWait opts w), q)]"
      "processing w'"
proof (cases "processing w")
  case False
  with assms have "w' = w" by (simp add: iteration_idle(1))
  with False show ?thesis by (intro Idle) simp_all
next
  case True
  show ?thesis
  proof (cases "queue w")
    case Nil
    with assms True have "w' = whileCheck w" by (simp add: processQueue_iteration_def)
    with Nil show ?thesis by (intro Idle) simp_all
  next
    case (Cons q rest)
    from assms True Cons show ?thesis
    proof (cases rule: iteration_cases)
      case (Retry err)
      with True Cons show ?thesis by (intro that(2)[of q rest err])
    next
      case (Settled res)
      with True Cons show ?thesis by (intro that(3)[of q rest res])
    next
      case (Pushed response s chunk remaining ts)
      with True Cons show ?thesis by (intro that(4)[of q rest response s chunk remaining ts])
    qed
  qed
qed

lemma iteration_failure:
  assumes "processing w" "queue w = q # rest"
  shows "processQueue_iteration opts js (Inl err) latency w =
     Some (whileCheck (handleRequestError opts q err
       (executeRequest q latency ((rateLimitWait opts w)\<lparr>queue := rest\<rparr>))))"
  using assms by (simp add: processQueue_iteration_def Let_def)

lemma iteration_retry:
  assumes "processing w" "queue w = q # rest" "int (retryCount q) < maxRetries opts"
  shows "\<exists>w'. processQueue_iteration opts js (Inl err) latency w = Some w'
     \<and> queue w' = q\<lparr>retryCount := Suc (retryCount q)\<rparr> # rest
     \<and> settled w' = settled w \<and> splits w' = splits w
     \<and> totalNodeCount w' = totalNodeCount w \<and> lastRequestTime w' = lastRequestTime w
     \<and> clock w' = clock (rateLimitWait opts w) + max 0 latency
          + max 0 (baseBackoffMs opts * 2 ^ retryCount q)"
  using assms by (simp add: iteration_failure handleRequestError_def Let_def)

lemma iteration_reject:
  assumes "processing w" "queue w = q # rest" "maxRetries opts \<le> int (retryCount q)"
  shows "\<exists>w'. processQueue_iteration opts js (Inl err) latency w = Some w'
     \<and> queue w' = rest
     \<and> settled w' = settled w @ [(promise q, Inl (RetriesFailed (maxRetries opts) err))]
     \<and> splits w' = filter (\<lambda>s. caller s \<noteq> promise q) (splits w)
     \<and> totalNodeCount w' = totalNodeCount w \<and> requestId w' = requestId w
     \<and> lastRequestTime w' = lastRequestTime w
     \<and> clock w' = clock (rateLimitWait opts w) + max 0 latency"
  using assms by (simp add: iteration_failure handleRequestError_def Let_def)

lemma iteration_calls:
  "processQueue_iteration opts js outcome latency w = Some w' \<Longrightarrow> calls w' = calls w"
  by (cases rule: execute_cases) simp_all

lemma find_filter_None: "find (\<lambda>s. caller s = c) (filter (\<lambda>s. caller s \<noteq> c) xs) = None"
  by (induction xs) auto

subsection \<open>Order of dispatch\<close>

lemma fifo_initial: "fifo initial"
  by (simp add: fifo_def initial_def)

lemma fifo_push:
  assumes "fifo w" "queue w' = queue w @ [\<lparr>entryId = Suc (requestId w), request = r, promise = p,
      timestamp = ts, retryCount = 0\<rparr>]" "requestId w' = Suc (requestId w)"
    "dispatched w' = dispatched w"
  shows "fifo w'"
  using assms
  by (auto simp: fifo_def list_all_iff sorted_wrt_append le_Suc_eq less_Suc_eq_le)

lemma fifo_step:
  assumes "fifo w" "step opts js w e = Some w'"
  shows "fifo w'"
proof (cases e)
  case (Enqueue req)
  with assms have "enqueue opts js req w = Some w'" by simp
  then show ?thesis
  proof (cases rule: enqueue_cases)
    case (Rejected err)
    with assms(1) show ?thesis by (simp add: fifo_def)
  next
    case Empty
    with assms(1) show ?thesis by (simp add: fifo_def)
  next
    case Plain
    with assms(1) show ?thesis by (intro fifo_push[of w w']) simp_all
  next
    case (Chunk target ns chunk remaining)
    with assms(1) show ?thesis by (intro fifo_push[of w w']) simp_all
  qed
next
  case (Execute outcome latency)
  with assms have "processQueue_iteration opts js outcome latency w = Some w'" by simp
  then show ?thesis
  proof (cases rule: execute_cases)
    case Idle
    with assms(1) show ?thesis by (simp add: fifo_def)
  next
    case (Retry q rest err)
    with assms(1) show ?thesis
      by (auto simp: fifo_def list_all_iff sorted_append)
  next
    case (Settled q rest res)
    with assms(1) show ?thesis
      by (auto simp: fifo_def list_all_iff sorted_append)
  next
    case (Pushed q rest response s chunk remaining ts)
    with assms(1) show ?thesis
      by (auto simp: fifo_def list_all_iff sorted_append sorted_wrt_append le_Suc_eq less_Suc_eq_le)
  qed
next
  case (SetNodeCount c)
  with assms show ?thesis by (auto simp: fifo_def)
next
  case ResetNodeCount
  with assms show ?thesis by (auto simp: fifo_def)
next
  case (Elapse ms)
  with assms show ?thesis by (auto simp: fifo_def)
qed

lemma run_fifo: "run opts js initial evs = Some w \<Longrightarrow> fifo w"
  by (rule run_invariant[where P = fifo]) (auto simp: fifo_initial fifo_step)

subsection \<open>Calls, entries and completions\<close>

lemma wellformed_initial: "wellformed opts initial"
  by (simp add: wellformed_def initial_def)

lemma filter_caller_fresh:
  "c \<notin> caller ` set xs \<Longrightarrow> filter (\<lambda>s. caller s \<noteq> c) xs = xs"
  by (induction xs) auto

lemma distinct_map_filter': "distinct (map f xs) \<Longrightarrow> distinct (map f (filter P xs))"
  by (induction xs) auto

lemma wellformedI:
  assumes "distinct (map promise (queue w))" "distinct (map fst (settled w))"
    "distinct (map caller (splits w))"
    "promise ` set (queue w) \<inter> fst ` set (settled w) = {}"
    "promise ` set (queue w) \<union> fst ` set (settled w) = {..< calls w}"
    "caller ` set (splits w) \<subseteq> promise ` set (queue w)"
    "list_all (\<lambda>s. list_all (\<lambda>c. int (length c) \<le> maxNodesPerRequest opts) (pendingChunks s))
          (splits w)"
    "processing w \<longleftrightarrow> queue w \<noteq> []"
  shows "wellformed opts w"
  using assms unfolding wellformed_def by blast

lemma wellformedD:
  assumes "wellformed opts w"
  shows "distinct (map promise (queue w))" "distinct (map fst (settled w))"
    "distinct (map caller (splits w))"
    "promise ` set (queue w) \<inter> fst ` set (settled w) = {}"
    "promise ` set (queue w) \<union> fst ` set (settled w) = {..< calls w}"
    "caller ` set (splits w) \<subseteq> promise ` set (queue w)"
    "list_all (\<lambda>s. list_all (\<lambda>c. int (length c) \<le> maxNodesPerRequest opts) (pendingChunks s))
          (splits w)"
    "processing w \<longleftrightarrow> queue w \<noteq> []"
  using assms unfolding wellformed_def by blast+

lemma wellformed_fresh:
  assumes "wellformed opts w"
  shows "calls w \<notin> promise ` set (queue w)" "calls w \<notin> fst ` set (settled w)"
    "calls w \<notin> caller ` set (splits w)"
proof -
  have "calls w \<notin> {..< calls w}" by simp
  then show "calls w \<notin> promise ` set (queue w)" "calls w \<notin> fst ` set (settled w)"
    unfolding wellformedD(5)[OF assms, symmetric] by blast+
  then show "calls w \<notin> caller ` set (splits w)"
    using wellformedD(6)[OF assms] by blast
qed

lemma wellformed_settle_new:
  assumes "wellformed opts w" "queue w' = queue w" "calls w' = Suc (calls w)"
    "settled w' = settled w @ [(calls w, res)]"
    "splits w' = splits w \<or> splits w' = filter (\<lambda>s. caller s \<noteq> calls w) (splits w)"
    "processing w' = processing w"
  shows "wellformed opts w'"
proof -
  note f = wellformed_fresh[OF assms(1)]
  note d = wellformedD[OF assms(1)]
  from filter_caller_fresh[OF f(3)] assms(5) have sp: "splits w' = splits w" by simp
  show ?thesis
  proof (rule wellformedI)
    show "promise ` set (queue w') \<union> fst ` set (settled w') = {..< calls w'}"
      using d(5) by (simp add: assms(2-4) lessThan_Suc)
    show "promise ` set (queue w') \<inter> fst ` set (settled w') = {}"
      using d(4) f(1) by (simp add: assms(2-4))
  qed (use d f in \<open>simp_all add: assms(2-4,6) sp\<close>)
qed

lemma wellformed_push_new:
  assumes "wellformed opts w" "calls w' = Suc (calls w)"
    "queue w' = queue w @ [\<lparr>entryId = i, request = r, promise = calls w, timestamp = ts,
       retryCount = 0\<rparr>]"
    "settled w' = settled w"
    "splits w' = splits w \<or> (\<exists>s. splits w' = splits w @ [s] \<and> caller s = calls w
        \<and> list_all (\<lambda>c. int (length c) \<le> maxNodesPerRequest opts) (pendingChunks s))"
    "processing w'"
  shows "wellformed opts w'"
proof -
  note f = wellformed_fresh[OF assms(1)]
  note d = wellformedD[OF assms(1)]
  show ?thesis
  proof (rule wellformedI)
    show "promise ` set (queue w') \<union> fst ` set (settled w') = {..< calls w'}"
      using d(5) by (simp add: assms(2-4) lessThan_Suc)
    show "promise ` set (queue w') \<inter> fst ` set (settled w') = {}"
      using d(4) f(2) by (simp add: assms(2-4))
    show "distinct (map caller (splits w'))"
      using assms(5) d(3) f(3) by auto
    have "\<And>x. x \<in> set (splits w) \<Longrightarrow> caller x \<in> promise ` set (queue w)"
      using d(6) by blast
    then show "caller ` set (splits w') \<subseteq> promise ` set (queue w')"
      using assms(5) by (auto simp: assms(3))
    show "list_all (\<lambda>s. list_all (\<lambda>c. int (length c) \<le> maxNodesPerRequest opts) (pendingChunks s))
          (splits w')"
      using assms(5) d(7) by auto
  qed (use d f in \<open>simp_all add: assms(2-4,6)\<close>)
qed

lemma wellformed_enqueue:
  assumes "wellformed opts w" "enqueue opts js req w = Some w'"
  shows "wellformed opts w'"
  using assms(2)
proof (cases rule: enqueue_cases)
  case (Rejected err)
  with assms(1) show ?thesis by (intro wellformed_settle_new[of opts w w' "Inl err"]) simp_all
next
  case Empty
  with assms(1) show ?thesis
    by (intro wellformed_settle_new[of opts w w' "Inr (combineResponses [])"]) simp_all
next
  case Plain
  with assms(1) show ?thesis
    by (intro wellformed_push_new[of opts w w' "Suc (requestId w)" req "clock w"]) simp_all
next
  case (Chunk target ns chunk remaining)
  from chunkNodes_within_limit[OF Chunk(2)]
  have "list_all (\<lambda>c. int (length c) \<le> maxNodesPerRequest opts) remaining"
    by (simp add: list_all_iff)
  with assms(1) Chunk show ?thesis
    by (intro wellformed_push_new[of opts w w' "Suc (requestId w)" "CreateNodes target chunk" "clock w"])
       simp_all
qed

lemma wellformed_remove_front:
  assumes "wellformed opts w" "queue w = q # rest"
  shows "promise q \<notin> promise ` set rest" "promise q \<notin> fst ` set (settled w)"
    "distinct (map promise rest)"
    "insert (promise q) (promise ` set rest \<union> fst ` set (settled w)) = {..< calls w}"
    "promise ` set rest \<inter> fst ` set (settled w) = {}"
    "caller ` set (filter (\<lambda>s. caller s \<noteq> promise q) (splits w)) \<subseteq> promise ` set rest"
    "distinct (map caller (filter (\<lambda>s. caller s \<noteq> promise q) (splits w)))"
    "list_all (\<lambda>s. list_all (\<lambda>c. int (length c) \<le> maxNodesPerRequest opts) (pendingChunks s))
          (filter (\<lambda>s. caller s \<noteq> promise q) (splits w))"
proof -
  note d = wellformedD[OF assms(1)]
  show "promise q \<notin> promise ` set rest" "distinct (map promise rest)"
    using d(1) by (simp_all add: assms(2))
  show "promise q \<notin> fst ` set (settled w)" "promise ` set rest \<inter> fst ` set (settled w) = {}"
    using d(4) by (simp_all add: assms(2))
  show "insert (promise q) (promise ` set rest \<union> fst ` set (settled w)) = {..< calls w}"
    using d(5) by (simp add: assms(2))
  show "caller ` set (filter (\<lambda>s. caller s \<noteq> promise q) (splits w)) \<subseteq> promise ` set rest"
    using d(6) by (auto simp: assms(2))
  show "distinct (map caller (filter (\<lambda>s. caller s \<noteq> promise q) (splits w)))"
    using d(3) by (rule distinct_map_filter')
  show "list_all (\<lambda>s. list_all (\<lambda>c. int (length c) \<le> maxNodesPerRequest opts) (pendingChunks s))
          (filter (\<lambda>s. caller s \<noteq> promise q) (splits w))"
    using d(7) by (auto simp: list_all_iff)
qed

lemma wellformed_execute:
  assumes "wellformed opts w" "processQueue_iteration opts js outcome latency w = Some w'"
  shows "wellformed opts w'"
  using assms(2)
proof (cases rule: execute_cases)
  case Idle
  with wellformedD[OF assms(1)] show ?thesis by (intro wellformedI) simp_all
next
  case (Retry q rest err)
  with wellformedD[OF assms(1)] show ?thesis by (intro wellformedI) simp_all
next
  case (Settled q rest res)
  note r = wellformed_remove_front[OF assms(1) Settled(2)]
  show ?thesis
  proof (rule wellformedI)
    show "promise ` set (queue w') \<union> fst ` set (settled w') = {..< calls w'}"
      using r(4) by (simp add: Settled(3-))
    show "promise ` set (queue w') \<inter> fst ` set (settled w') = {}"
      using r(1,5) by (simp add: Settled(3-))
    show "distinct (map fst (settled w'))"
      using r(2) wellformedD(2)[OF assms(1)] by (simp add: Settled(3-))
  qed (use r in \<open>simp_all add: Settled(3-)\<close>)
next
  case (Pushed q rest response s chunk remaining ts)
  note r = wellformed_remove_front[OF assms(1) Pushed(2)]
  have sc: "caller s = promise q" "s \<in> set (splits w)"
    using find_Some_caller[OF Pushed(4)] by simp_all
  have l: "list_all (\<lambda>c. int (length c) \<le> maxNodesPerRequest opts) remaining"
    using wellformedD(7)[OF assms(1)] sc(2) Pushed(5) by (auto simp: list_all_iff)
  show ?thesis
  proof (rule wellformedI)
    show "promise ` set (queue w') \<union> fst ` set (settled w') = {..< calls w'}"
      using r(4) by (simp add: Pushed(6-))
    show "promise ` set (queue w') \<inter> fst ` set (settled w') = {}"
      using r(2,5) by (simp add: Pushed(6-))
    show "distinct (map fst (settled w'))"
      using wellformedD(2)[OF assms(1)] by (simp add: Pushed(6-))
    show "distinct (map caller (splits w'))"
      using r(7) sc(1) by (auto simp: Pushed(6-))
    show "caller ` set (splits w') \<subseteq> promise ` set (queue w')"
      using r(6) sc(1) by (auto simp: Pushed(6-))
    show "list_all (\<lambda>s. list_all (\<lambda>c. int (length c) \<le> maxNodesPerRequest opts) (pendingChunks s))
          (splits w')"
      using r(8) l by (simp add: Pushed(6-))
  qed (use r in \<open>simp_all add: Pushed(6-)\<close>)
qed

lemma wellformed_step:
  assumes "wellformed opts w" "step opts js w e = Some w'"
  shows "wellformed opts w'"
proof (cases e)
  case (Enqueue req)
  with assms show ?thesis by (simp add: wellformed_enqueue)
next
  case (Execute outcome latency)
  with assms show ?thesis by (simp add: wellformed_execute)
next
  case (SetNodeCount c)
  with assms have "w' = setNodeCount c w" by simp
  with assms(1) show ?thesis by (simp add: wellformed_def)
next
  case ResetNodeCount
  with assms have "w' = resetNodeCount w" by simp
  with assms(1) show ?thesis by (simp add: wellformed_def)
next
  case (Elapse ms)
  with assms have "w' = sleep ms w" by simp
  with assms(1) show ?thesis by (simp add: wellformed_def)
qed

lemma run_wellformed_from:
  "wellformed opts w0 \<Longrightarrow> run opts js w0 evs = Some w \<Longrightarrow> wellformed opts w"
  by (rule run_invariant[where P = "wellformed opts"]) (auto simp: wellformed_step)

lemma run_wellformed: "run opts js initial evs = Some w \<Longrightarrow> wellformed opts w"
  by (rule run_wellformed_from[OF wellformed_initial])

subsection \<open>Attempts\<close>

lemma attempts_same: "dispatched w' = dispatched w \<Longrightarrow> attempts i w' = attempts i w"
  by (simp add: attempts_def)

lemma attempts_dispatch:
  "dispatched w' = dispatched w @ [(t, q)] \<Longrightarrow>
     attempts i w' = (if entryId q = i then Suc (attempts i w) else attempts i w)"
  by (simp add: attempts_def)

lemma retries_bounded_initial: "0 \<le> maxRetries opts \<Longrightarrow> retries_bounded opts initial"
  by (simp add: retries_bounded_def initial_def attempts_def)

lemma retries_bounded_push:
  assumes "retries_bounded opts w" "0 \<le> maxRetries opts"
    "queue w' = queue w @ [\<lparr>entryId = Suc (requestId w), request = r, promise = p,
      timestamp = ts, retryCount = 0\<rparr>]" "requestId w' = Suc (requestId w)"
    "dispatched w' = dispatched w"
  shows "retries_bounded opts w'"
proof -
  have a: "\<And>i. attempts i w' = attempts i w" using assms(5) by (rule attempts_same)
  have "\<forall>q \<in> set (queue w). entryId q \<le> requestId w"
    using assms(1) by (auto simp: retries_bounded_def list_all_iff)
  then have "Suc (requestId w) \<notin> entryId ` set (queue w)" by auto
  then show ?thesis
    using assms(1,2) unfolding retries_bounded_def
    by (auto simp: a assms(3,4) list_all_iff)
qed

lemma retries_bounded_same:
  assumes "retries_bounded opts w" "queue w' = queue w" "requestId w' = requestId w"
    "dispatched w' = dispatched w"
  shows "retries_bounded opts w'"
proof -
  have a: "\<And>i. attempts i w' = attempts i w" using assms(4) by (rule attempts_same)
  show ?thesis using assms(1) unfolding retries_bounded_def by (simp add: a assms(2,3))
qed

lemma retries_bounded_dispatch:
  assumes "retries_bounded opts w" "queue w = q # rest"
    "dispatched w1 = dispatched w @ [(t, q)]" "queue w1 = rest" "requestId w1 = requestId w"
  shows "retries_bounded opts w1"
proof -
  note a = attempts_dispatch[OF assms(3)]
  have q: "entryId q \<le> requestId w" "int (retryCount q) \<le> maxRetries opts"
    "attempts (entryId q) w = retryCount q" "entryId q \<notin> entryId ` set rest"
    "distinct (map entryId rest)"
    using assms(1,2) by (auto simp: retries_bounded_def)
  have r: "\<forall>x \<in> set rest. entryId x \<le> requestId w \<and> int (retryCount x) \<le> maxRetries opts
      \<and> attempts (entryId x) w = retryCount x"
    using assms(1,2) by (auto simp: retries_bounded_def list_all_iff)
  have g: "\<forall>i. int (attempts i w) \<le> maxRetries opts + 1" "\<forall>i. requestId w < i \<longrightarrow> attempts i w = 0"
    using assms(1) by (auto simp: retries_bounded_def)
  show ?thesis
    unfolding retries_bounded_def
  proof (intro conjI)
    show "distinct (map entryId (queue w1))" using q(5) by (simp add: assms(4))
    show "list_all (\<lambda>q. entryId q \<le> requestId w1 \<and> int (retryCount q) \<le> maxRetries opts
          \<and> attempts (entryId q) w1 = retryCount q) (queue w1)"
      using r q(4) by (auto simp: list_all_iff assms(4,5) a)
    show "\<forall>i. int (attempts i w1) \<le> maxRetries opts + 1"
      using g(1) q(2,3) by (auto simp: a)
    show "\<forall>i. requestId w1 < i \<longrightarrow> attempts i w1 = 0"
      using g(2) q(1) by (auto simp: a assms(5))
  qed
qed

lemma retries_bounded_requeue:
  assumes "retries_bounded opts w" "queue w = q # rest"
    "int (Suc (retryCount q)) \<le> maxRetries opts"
    "dispatched w' = dispatched w @ [(t, q)]"
    "queue w' = q\<lparr>retryCount := Suc (retryCount q)\<rparr> # rest" "requestId w' = requestId w"
  shows "retries_bounded opts w'"
proof -
  note a = attempts_dispatch[OF assms(4)]
  have q: "entryId q \<le> requestId w" "int (retryCount q) \<le> maxRetries opts"
    "attempts (entryId q) w = retryCount q" "entryId q \<notin> entryId ` set rest"
    "distinct (map entryId rest)"
    using assms(1,2) by (auto simp: retries_bounded_def)
  have r: "\<forall>x \<in> set rest. entryId x \<le> requestId w \<and> int (retryCount x) \<le> maxRetries opts
      \<and> attempts (entryId x) w = retryCount x"
    using assms(1,2) by (auto simp: retries_bounded_def list_all_iff)
  have g: "\<forall>i. int (attempts i w) \<le> maxRetries opts + 1" "\<forall>i. requestId w < i \<longrightarrow> attempts i w = 0"
    using assms(1) by (auto simp: retries_bounded_def)
  show ?thesis
    unfolding retries_bounded_def
  proof (intro conjI)
    show "distinct (map entryId (queue w'))" using q(4,5) by (simp add: assms(5))
    show "list_all (\<lambda>q. entryId q \<le> requestId w' \<and> int (retryCount q) \<le> maxRetries opts
          \<and> attempts (entryId q) w' = retryCount q) (queue w')"
      using r q assms(3) by (auto simp: list_all_iff assms(5,6) a)
    show "\<forall>i. int (attempts i w') \<le> maxRetries opts + 1"
      using g(1) q(2,3) by (auto simp: a)
    show "\<forall>i. requestId w' < i \<longrightarrow> attempts i w' = 0"
      using g(2) q(1) by (auto simp: a assms(6))
  qed
qed

lemma retries_bounded_step:
  assumes "retries_bounded opts w" "0 \<le> maxRetries opts" "step opts js w e = Some w'"
  shows "retries_bounded opts w'"
proof (cases e)
  case (Enqueue req)
  with assms have "enqueue opts js req w = Some w'" by simp
  then show ?thesis
  proof (cases rule: enqueue_cases)
    case (Rejected err)
    with assms(1) show ?thesis by (intro retries_bounded_same[of opts w w']) simp_all
  next
    case Empty
    with assms(1) show ?thesis by (intro retries_bounded_same[of opts w w']) simp_all
  next
    case Plain
    with assms(1,2) show ?thesis by (intro retries_bounded_push[of opts w w']) simp_all
  next
    case (Chunk target ns chunk remaining)
    with assms(1,2) show ?thesis by (intro retries_bounded_push[of opts w w']) simp_all
  qed
next
  case (Execute outcome latency)
  with assms have "processQueue_iteration opts js outcome latency w = Some w'" by simp
  then show ?thesis
  proof (cases rule: execute_cases)
    case Idle
    with assms(1) show ?thesis by (intro retries_bounded_same[of opts w w']) simp_all
  next
    case (Retry q rest err)
    with assms(1) show ?thesis by (intro retries_bounded_requeue[of opts w q rest w']) simp_all
  next
    case (Settled q rest res)
    with assms(1) show ?thesis by (intro retries_bounded_dispatch[of opts w q rest w']) simp_all
  next
    case (Pushed q rest response s chunk remaining ts)
    define w1 where "w1 = w'\<lparr>queue := rest, requestId := requestId w\<rparr>"
    have "retries_bounded opts w1"
      using assms(1) Pushed by (intro retries_bounded_dispatch[of opts w q rest w1]) (simp_all add: w1_def)
    then show ?thesis
      using assms(2) Pushed by (intro retries_bounded_push[of opts w1 w']) (simp_all add: w1_def)
  qed
next
  case (SetNodeCount c)
  with assms have "w' = setNodeCount c w" by simp
  with assms(1) show ?thesis by (intro retries_bounded_same[of opts w w']) simp_all
next
  case ResetNodeCount
  with assms have "w' = resetNodeCount w" by simp
  with assms(1) show ?thesis by (intro retries_bounded_same[of opts w w']) simp_all
next
  case (Elapse ms)
  with assms have "w' = sleep ms w" by simp
  with assms(1) show ?thesis by (intro retries_bounded_same[of opts w w']) simp_all
qed

lemma run_retries_bounded:
  assumes "0 \<le> maxRetries opts" "run opts js initial evs = Some w"
  shows "retries_bounded opts w"
  by (rule run_invariant[OF assms(2), where P = "retries_bounded opts"])
     (use assms(1) in \<open>auto simp: retries_bounded_initial retries_bounded_step\<close>)

subsection \<open>The worker drains the list\<close>

lemma iteration_returns:
  assumes "wellformed opts w"
  shows "\<exists>w'. processQueue_iteration opts js outcome latency w = Some w'"
proof (cases "processing w \<and> queue w \<noteq> []")
  case False
  then show ?thesis by (auto simp: processQueue_iteration_def split: list.splits)
next
  case True
  then obtain q rest where q: "queue w = q # rest" by (cases "queue w") auto
  show ?thesis
  proof (cases outcome)
    case (Inl err)
    with True q show ?thesis by (simp add: iteration_failure)
  next
    case (Inr response)
    define w4 where "w4 = whileCheck ((updateNodeCount (request q) response
        (executeRequest q latency ((rateLimitWait opts w)\<lparr>queue := rest\<rparr>)))
        \<lparr>lastRequestTime := clock (updateNodeCount (request q) response
        (executeRequest q latency ((rateLimitWait opts w)\<lparr>queue := rest\<rparr>)))\<rparr>)"
    have e: "processQueue_iteration opts js outcome latency w
        = resolveCall opts js (promise q) response w4"
      using True q Inr by (simp add: processQueue_iteration_def Let_def w4_def)
    have sp: "splits w4 = splits w" by (simp add: w4_def)
    show ?thesis
    proof (cases "find (\<lambda>s. caller s = promise q) (splits w)")
      case None
      then show ?thesis by (simp add: e resolveCall_def sp)
    next
      case (Some s)
      then have "s \<in> set (splits w)" using find_Some_caller by fast
      with wellformedD(7)[OF assms]
      have "\<forall>c \<in> set (pendingChunks s). int (length c) \<le> maxNodesPerRequest opts"
        by (auto simp: list_all_iff)
      then show ?thesis
        by (cases "pendingChunks s")
           (auto simp: e resolveCall_def sp Some handleLargeCreateRequest_loop_def awaitChunk_def
              Let_def split: option.splits)
    qed
  qed
qed

lemma sum_list_filter_split:
  "sum_list (map f xs) = sum_list (map f (filter P xs)) + sum_list (map f (filter (\<lambda>x. \<not> P x) xs))"
  for f :: "'a \<Rightarrow> nat"
  by (induction xs) auto

lemma sum_list_filter_le:
  "sum_list (map f (filter P xs)) \<le> sum_list (map f xs)" for f :: "'a \<Rightarrow> nat"
  by (induction xs) auto

lemma member_le_sum_list_map:
  "x \<in> set xs \<Longrightarrow> f x \<le> sum_list (map f xs)" for f :: "'a \<Rightarrow> nat"
  by (induction xs) auto

lemma work_decreases:
  assumes "wellformed opts w" "queue w \<noteq> []"
    "processQueue_iteration opts js outcome latency w = Some w'"
  shows "work opts w' < work opts w"
  using assms(3)
proof (cases rule: execute_cases)
  case Idle
  with assms(2) wellformedD(8)[OF assms(1)] show ?thesis by simp
next
  case (Retry q rest err)
  then show ?thesis by (simp add: work_def)
next
  case (Settled q rest res)
  have "sum_list (map (\<lambda>s. length (pendingChunks s) * Suc (nat (maxRetries opts)))
            (filter (\<lambda>s. caller s \<noteq> promise q) (splits w)))
      \<le> sum_list (map (\<lambda>s. length (pendingChunks s) * Suc (nat (maxRetries opts))) (splits w))"
    by (rule sum_list_filter_le)
  with Settled show ?thesis by (simp add: work_def)
next
  case (Pushed q rest response s chunk remaining ts)
  let ?f = "\<lambda>s. length (pendingChunks s) * Suc (nat (maxRetries opts))"
  have s: "caller s = promise q" "s \<in> set (splits w)"
    using find_Some_caller[OF Pushed(4)] by simp_all
  then have "s \<in> set (filter (\<lambda>s. \<not> caller s \<noteq> promise q) (splits w))" by simp
  then have "?f s \<le> sum_list (map ?f (filter (\<lambda>s. \<not> caller s \<noteq> promise q) (splits w)))"
    by (rule member_le_sum_list_map)
  moreover have "?f s = Suc (nat (maxRetries opts)) + length remaining * Suc (nat (maxRetries opts))"
    by (simp add: Pushed(5))
  moreover have "sum_list (map ?f (splits w))
      = sum_list (map ?f (filter (\<lambda>s. caller s \<noteq> promise q) (splits w)))
        + sum_list (map ?f (filter (\<lambda>s. \<not> caller s \<noteq> promise q) (splits w)))"
    by (rule sum_list_filter_split)
  ultimately show ?thesis using Pushed by (simp add: work_def)
qed

lemma work_idle:
  assumes "wellformed opts w" "queue w = []"
  shows "work opts w = 0"
proof -
  from wellformedD(6)[OF assms(1)] assms(2) have "splits w = []" by simp
  with assms(2) show ?thesis by (simp add: work_def)
qed

lemma work_zero: "work opts w = 0 \<Longrightarrow> queue w = []"
  by (cases "queue w") (simp_all add: work_def)

lemma drain:
  assumes "wellformed opts w" "work opts w \<le> length outs"
  shows "\<exists>w'. run opts js w (map (\<lambda>x. Execute (fst x) (snd x)) outs) = Some w'
     \<and> queue w' = [] \<and> wellformed opts w' \<and> calls w' = calls w"
  using assms
proof (induction outs arbitrary: w)
  case Nil
  then show ?case by (simp add: work_zero)
next
  case (Cons out outs)
  from iteration_returns[OF Cons.prems(1)] obtain w1 where
    w1: "processQueue_iteration opts js (fst out) (snd out) w = Some w1" by blast
  have wf1: "wellformed opts w1" using Cons.prems(1) w1 by (rule wellformed_execute)
  have "work opts w1 \<le> length outs"
  proof (cases "queue w = []")
    case True
    from w1 have "queue w1 = []" using True Cons.prems(1)
      by (cases rule: execute_cases) simp_all
    with wf1 show ?thesis by (simp add: work_idle)
  next
    case False
    from work_decreases[OF Cons.prems(1) False w1] Cons.prems(2) show ?thesis by simp
  qed
  from Cons.IH[OF wf1 this] iteration_calls[OF w1] w1 show ?case by simp
qed

subsection \<open>The ceiling\<close>

lemma estimated_nonneg: "0 \<le> estimatedNewNodes req"
  by (cases req) simp_all

lemma estimated_other: "\<not> isCreateNodesRequest req \<Longrightarrow> estimatedNewNodes req = 0"
  by (cases req) simp_all

lemma pendingNodes_none:
  "filter (\<lambda>q. isCreateNodesRequest (request q)) qs = [] \<Longrightarrow>
     sum_list (map (\<lambda>q. estimatedNewNodes (request q)) qs) = 0"
  by (induction qs) (auto simp: estimated_other split: if_splits)

lemma pendingNodes_nonneg: "0 \<le> sum_list (map (\<lambda>q. estimatedNewNodes (request q)) qs)"
  by (induction qs) (auto simp: estimated_nonneg)

lemma confirmed_nonneg: "0 \<le> confirmedNodes req outcome"
  by (auto simp: confirmedNodes_def nodesCreated_def split: sum.splits option.splits)

lemma under_ceiling_initial: "0 \<le> maxWorkspaceNodes opts \<Longrightarrow> under_ceiling opts initial"
  by (simp add: under_ceiling_def initial_def pendingNodes_def)

lemma under_ceiling_enqueue:
  assumes "under_ceiling opts w" "wellformed opts w" "allowed opts w (Enqueue req)"
    "enqueue opts js req w = Some w'"
  shows "under_ceiling opts w'"
  using assms(4)
proof (cases rule: enqueue_cases)
  case (Rejected err)
  with assms(1) show ?thesis by (auto simp: under_ceiling_def pendingNodes_def list_all_iff)
next
  case Empty
  with assms(1) show ?thesis by (auto simp: under_ceiling_def pendingNodes_def list_all_iff)
next
  case Plain
  note f = wellformed_fresh[OF assms(2)]
  from Plain(1) have adm: "totalNodeCount w + estimatedNewNodes req \<le> maxWorkspaceNodes opts"
    by (simp add: admission_def split: if_splits)
  show ?thesis
  proof (cases "isCreateNodesRequest req")
    case True
    with assms(3) have none: "filter (\<lambda>q. isCreateNodesRequest (request q)) (queue w) = []"
      by (auto simp: list_all_iff filter_empty_conv)
    from pendingNodes_none[OF none] adm assms(1) f(3) True none show ?thesis
      by (auto simp: under_ceiling_def pendingNodes_def Plain(2) list_all_iff)
  next
    case False
    with assms(1) f(3) show ?thesis
      by (auto simp: under_ceiling_def pendingNodes_def Plain(2) list_all_iff estimated_other)
  qed
next
  case (Chunk target ns chunk remaining)
  note f = wellformed_fresh[OF assms(2)]
  from Chunk(3) have adm: "totalNodeCount w + int (length chunk) \<le> maxWorkspaceNodes opts"
    by (simp add: admission_def split: if_splits)
  from assms(3) Chunk(1) have none: "filter (\<lambda>q. isCreateNodesRequest (request q)) (queue w) = []"
    by (auto simp: list_all_iff filter_empty_conv)
  have fresh: "\<forall>q \<in> set (queue w). promise q \<noteq> calls w" using f(1) by force
  from pendingNodes_none[OF none] adm assms(1) fresh none show ?thesis
    by (auto simp: under_ceiling_def pendingNodes_def Chunk(4) list_all_iff)
qed

lemma under_ceiling_execute:
  assumes "under_ceiling opts w" "wellformed opts w" "allowed opts w (Execute outcome latency)"
    "processQueue_iteration opts js outcome latency w = Some w'"
  shows "under_ceiling opts w'"
  using assms(4)
proof (cases rule: execute_cases)
  case Idle
  with assms(1) show ?thesis by (simp add: under_ceiling_def pendingNodes_def)
next
  case (Retry q rest err)
  with assms(1) show ?thesis by (auto simp: under_ceiling_def pendingNodes_def split: if_splits)
next
  case (Settled q rest res)
  from assms(3) Settled(2)
  have c: "confirmedNodes (request q) outcome \<le> estimatedNewNodes (request q)" by simp
  have "\<And>x. promise x \<in> caller ` set (filter (\<lambda>s. caller s \<noteq> promise q) (splits w))
      \<Longrightarrow> promise x \<in> caller ` set (splits w)" by auto
  with assms(1) c confirmed_nonneg[of "request q" outcome] show ?thesis
    by (auto simp: under_ceiling_def pendingNodes_def Settled(2-) list_all_iff split: if_splits)
next
  case (Pushed q rest response s chunk remaining ts)
  have s: "caller s = promise q" "s \<in> set (splits w)"
    using find_Some_caller[OF Pushed(4)] by simp_all
  then have "promise q \<in> caller ` set (splits w)" by force
  with assms(1) Pushed(2) have cq: "isCreateNodesRequest (request q)"
    by (simp add: under_ceiling_def)
  with assms(1) Pushed(2) have none: "filter (\<lambda>q. isCreateNodesRequest (request q)) rest = []"
    by (simp add: under_ceiling_def)
  have other: "\<forall>x \<in> set rest. promise x \<noteq> promise q"
    using wellformed_remove_front(1)[OF assms(2) Pushed(2)] by (metis image_eqI)
  have old: "\<forall>x \<in> set rest. promise x \<in> caller ` set (splits w) \<longrightarrow> isCreateNodesRequest (request x)"
    using assms(1) Pushed(2) by (simp add: under_ceiling_def list_all_iff)
  have t: "0 \<le> totalNodeCount w'"
    using assms(1) confirmed_nonneg[of "request q" outcome] by (simp add: under_ceiling_def Pushed(9))
  show ?thesis
    unfolding under_ceiling_def
  proof (intro conjI)
    show "0 \<le> totalNodeCount w'" by (rule t)
    show "totalNodeCount w' + pendingNodes w' \<le> maxWorkspaceNodes opts"
      using Pushed(10) pendingNodes_none[OF none] by (simp add: pendingNodes_def Pushed(6))
    show "length (filter (\<lambda>q. isCreateNodesRequest (request q)) (queue w')) \<le> 1"
      using none by (simp add: Pushed(6))
    show "list_all (\<lambda>q. promise q \<in> caller ` set (splits w') \<longrightarrow> isCreateNodesRequest (request q))
          (queue w')"
      using other old s(1) by (auto simp: Pushed(6,7) list_all_iff)
  qed
qed

lemma under_ceiling_step:
  assumes "under_ceiling opts w" "wellformed opts w" "allowed opts w e"
    "step opts js w e = Some w'"
  shows "under_ceiling opts w'"
proof (cases e)
  case (Enqueue req)
  with assms show ?thesis by (simp add: under_ceiling_enqueue)
next
  case (Execute outcome latency)
  with assms under_ceiling_execute[of opts w outcome latency js w'] show ?thesis by simp
next
  case (SetNodeCount c)
  with assms have w': "w' = setNodeCount c w" and c: "c + pendingNodes w \<le> maxWorkspaceNodes opts"
    by simp_all
  from assms(1) have "pendingNodes w \<le> maxWorkspaceNodes opts"
    by (simp add: under_ceiling_def)
  with assms(1) c show ?thesis by (simp add: under_ceiling_def w' pendingNodes_def max_def)
next
  case ResetNodeCount
  with assms have w': "w' = resetNodeCount w" by simp
  from assms(1) have "pendingNodes w \<le> maxWorkspaceNodes opts"
    by (simp add: under_ceiling_def)
  with assms(1) show ?thesis by (simp add: under_ceiling_def w' pendingNodes_def)
next
  case (Elapse ms)
  with assms have w': "w' = sleep ms w" by simp
  with assms(1) show ?thesis by (simp add: under_ceiling_def pendingNodes_def)
qed

lemma run_under_ceiling:
  assumes "run opts js w0 evs = Some w" "one_create_at_a_time opts js w0 evs"
    "under_ceiling opts w0" "wellformed opts w0"
  shows "under_ceiling opts w"
  using assms
proof (induction evs arbitrary: w0)
  case Nil
  then show ?case by simp
next
  case (Cons e es)
  then obtain w1 where w1: "step opts js w0 e = Some w1" "run opts js w1 es = Some w"
    by (auto split: option.splits)
  from Cons.prems(2) w1(1) have a: "allowed opts w0 e" "one_create_at_a_time opts js w1 es"
    by simp_all
  from under_ceiling_step[OF Cons.prems(3,4) a(1) w1(1)] wellformed_step[OF Cons.prems(4) w1(1)]
    Cons.IH[OF w1(2) a(2)]
  show ?case by blast
qed

subsection \<open>The example runs evaluated\<close>

lemma always_failing_run:
  "run (defaultOptions\<lparr>maxRetries := 1\<rparr>) shortPayload initial always_failing \<noteq> None"
  "settled (the (run (defaultOptions\<lparr>maxRetries := 1\<rparr>) shortPayload initial always_failing))
     = [(0, Inl (RetriesFailed 1 (Transport ''socket hang up'')))]"
  "map (\<lambda>d. entryId (snd d))
     (dispatched (the (run (defaultOptions\<lparr>maxRetries := 1\<rparr>) shortPayload initial always_failing)))
     = [1, 1]"
  by code_simp+

lemma one_pending_fields:
  "processing one_pending"
  "queue one_pending = [\<lparr>entryId = 1, request = SetName ''node'' ''name'', promise = 0,
      timestamp = 0, retryCount = 0\<rparr>]"
  by (simp_all add: one_pending_def enqueue_def admission_def shortPayload_def defaultOptions_def
      initial_def Let_def)

lemma second_chunk_pending_fields:
  "processing second_chunk_pending"
  "queue second_chunk_pending = [hd (queue second_chunk_pending)]"
  "maxRetries (defaultOptions\<lparr>maxNodesPerRequest := 1, maxRetries := 0\<rparr>)
     \<le> int (retryCount (hd (queue second_chunk_pending)))"
  "find (\<lambda>s. caller s = promise (hd (queue second_chunk_pending))) (splits second_chunk_pending)
     = Some \<lparr>caller = 0, targetNodeId = None, pendingChunks = [[3]],
         allResponses = [\<lparr>children = Some [''a'']\<rparr>]\<rparr>"
  "totalNodeCount second_chunk_pending = 1"
  "settled second_chunk_pending = []"
  "promise (hd (queue second_chunk_pending)) = 0"
  by code_simp+

lemma two_pending_run:
  "run (defaultOptions\<lparr>maxNodesPerRequest := 2, maxRetries := 1\<rparr>) shortPayload initial
       [Enqueue (CreateNodes None [1, 2, 3]), Enqueue (SetName ''node'' ''name'')]
     = Some two_pending"
  "work (defaultOptions\<lparr>maxNodesPerRequest := 2, maxRetries := 1\<rparr>) two_pending
     \<le> length mixed_outcomes"
  "map_option settled
     (run (defaultOptions\<lparr>maxNodesPerRequest := 2, maxRetries := 1\<rparr>) shortPayload two_pending
        (map (\<lambda>x. Execute (fst x) (snd x)) mixed_outcomes))
     = Some [(1, Inl (RetriesFailed 1 (Transport ''socket hang up''))),
             (0, Inr \<lparr>children = Some [''a'', ''b'', ''c'']\<rparr>)]"
  by code_simp+

lemma creates_in_turn_run:
  "run (defaultOptions\<lparr>maxWorkspaceNodes := 8\<rparr>) shortPayload initial creates_in_turn \<noteq> None"
  "one_create_at_a_time (defaultOptions\<lparr>maxWorkspaceNodes := 8\<rparr>) shortPayload initial creates_in_turn"
  "totalNodeCount (the (run (defaultOptions\<lparr>maxWorkspaceNodes := 8\<rparr>) shortPayload initial
      creates_in_turn)) = 8"
  by code_simp+

lemma chunks_of_250: "map length (the (chunkNodes [0 ..< 250] 100)) = [100, 100, 50]"
  by code_simp

section \<open>Properties\<close>

text \<open>
  C1, as stated, fails.  The check in \<^verbatim>\<open>enqueue\<close> compares the count with the ceiling
  without the nodes of the creates that are already pending, and \<^verbatim>\<open>setNodeCount\<close>
  stores any count: two creates of five nodes, both admitted under a ceiling of
  eight, bring the count to ten; a seed above the ceiling stays above it; and three
  children reported for a create of one node are all counted.
\<close>

theorem ceiling_exceeded:
  "totalNodeCount (the (run (defaultOptions\<lparr>maxWorkspaceNodes := 8\<rparr>) shortPayload initial
      two_creates)) = 10
   \<and> totalNodeCount (the (run defaultOptions shortPayload (initial :: (nat, string) state)
      [SetNodeCount 750001])) = 750001
   \<and> totalNodeCount (the (run (defaultOptions\<lparr>maxWorkspaceNodes := 2\<rparr>) shortPayload
      (initial :: (nat, string) state)
      [Enqueue (CreateNodes None [1]),
       Execute (Inr \<lparr>children = Some [''a'', ''b'', ''c'']\<rparr>) 5])) = 3"
  by code_simp

text \<open>
  C1, amended.  When the ceiling is not negative and creates take turns (a create is
  enqueued only when no create is pending, the executor reports no more children
  than the request has nodes, and a seed leaves room for the pending nodes), the
  count never exceeds the ceiling.
\<close>

theorem ceiling_kept_by_one_create_at_a_time:
  assumes "0 \<le> maxWorkspaceNodes opts"
    and "run opts jsonLength initial evs = Some w"
    and "one_create_at_a_time opts jsonLength initial evs"
  shows "totalNodeCount w \<le> maxWorkspaceNodes opts"
proof -
  from run_under_ceiling[OF assms(2,3) under_ceiling_initial[OF assms(1)] wellformed_initial]
  have "totalNodeCount w + pendingNodes w \<le> maxWorkspaceNodes opts"
    by (simp add: under_ceiling_def)
  moreover have "0 \<le> pendingNodes w" by (simp add: pendingNodes_def pendingNodes_nonneg)
  ultimately show ?thesis by simp
qed

theorem ceiling_kept_by_one_create_at_a_time_witness:
  "0 \<le> maxWorkspaceNodes (defaultOptions\<lparr>maxWorkspaceNodes := 8\<rparr>)
   \<and> run (defaultOptions\<lparr>maxWorkspaceNodes := 8\<rparr>) shortPayload initial creates_in_turn \<noteq> None
   \<and> one_create_at_a_time (defaultOptions\<lparr>maxWorkspaceNodes := 8\<rparr>) shortPayload initial
        creates_in_turn
   \<and> totalNodeCount (the (run (defaultOptions\<lparr>maxWorkspaceNodes := 8\<rparr>) shortPayload initial
        creates_in_turn)) \<le> maxWorkspaceNodes (defaultOptions\<lparr>maxWorkspaceNodes := 8\<rparr>)
   \<and> totalNodeCount (the (run (defaultOptions\<lparr>maxWorkspaceNodes := 8\<rparr>) shortPayload initial
        creates_in_turn)) = 8"
proof -
  have m: "0 \<le> maxWorkspaceNodes (defaultOptions\<lparr>maxWorkspaceNodes := 8\<rparr>)" by simp
  from creates_in_turn_run(1) obtain w where
    w: "run (defaultOptions\<lparr>maxWorkspaceNodes := 8\<rparr>) shortPayload initial creates_in_turn = Some w"
    by blast
  from ceiling_kept_by_one_create_at_a_time[OF m w creates_in_turn_run(2)] creates_in_turn_run w m
  show ?thesis by simp
qed

text \<open>
  C2, as stated, fails.  When the second chunk of a split create is refused, the
  caller's promise is rejected with that chunk's error alone; the node created by the
  first chunk stays counted, and the third chunk is never dispatched.
\<close>

theorem partial_split_failure_is_plain_error:
  "settled (the (run (defaultOptions\<lparr>maxNodesPerRequest := 1, maxRetries := 0\<rparr>) shortPayload initial
      split_with_failure))
     = [(0, Inl (RetriesFailed 0 (Transport ''Tana API error: 400 Bad Request'')))]
   \<and> totalNodeCount (the (run (defaultOptions\<lparr>maxNodesPerRequest := 1, maxRetries := 0\<rparr>)
      shortPayload initial split_with_failure)) = 1
   \<and> map (\<lambda>d. request (snd d)) (dispatched (the (run (defaultOptions\<lparr>maxNodesPerRequest := 1,
      maxRetries := 0\<rparr>) shortPayload initial split_with_failure)))
     = [CreateNodes None [1], CreateNodes None [2]]"
  by code_simp

text \<open>
  C2, amended.  When a sub-request of a split create fails for the last time, the
  promise of the whole create is rejected with the error of that sub-request; the
  activation with the responses collected so far is dropped, no further chunk is
  enqueued, and the node count keeps what the earlier chunks added.
\<close>

theorem failed_chunk_rejects_whole_create:
  assumes "processing w" "queue w = q # rest" "maxRetries opts \<le> int (retryCount q)"
    and "find (\<lambda>s. caller s = promise q) (splits w) = Some s"
  shows "\<exists>w'. processQueue_iteration opts jsonLength (Inl err) latency w = Some w'
     \<and> settled w' = settled w @ [(promise q, Inl (RetriesFailed (maxRetries opts) err))]
     \<and> queue w' = rest \<and> requestId w' = requestId w
     \<and> find (\<lambda>s. caller s = promise q) (splits w') = None
     \<and> totalNodeCount w' = totalNodeCount w"
  using iteration_reject[OF assms(1-3), of jsonLength err latency]
  by (auto simp: find_filter_None)

theorem failed_chunk_rejects_whole_create_witness:
  "processing second_chunk_pending
   \<and> queue second_chunk_pending = [hd (queue second_chunk_pending)]
   \<and> maxRetries (defaultOptions\<lparr>maxNodesPerRequest := 1, maxRetries := 0\<rparr>)
       \<le> int (retryCount (hd (queue second_chunk_pending)))
   \<and> find (\<lambda>s. caller s = promise (hd (queue second_chunk_pending))) (splits second_chunk_pending)
       = Some \<lparr>caller = 0, targetNodeId = None, pendingChunks = [[3]],
           allResponses = [\<lparr>children = Some [''a'']\<rparr>]\<rparr>
   \<and> (\<exists>w'. processQueue_iteration (defaultOptions\<lparr>maxNodesPerRequest := 1, maxRetries := 0\<rparr>)
          shortPayload (Inl (Transport ''Tana API error: 400 Bad Request'')) 5 second_chunk_pending
          = Some w'
        \<and> settled w' = [(0, Inl (RetriesFailed 0 (Transport ''Tana API error: 400 Bad Request'')))]
        \<and> queue w' = [] \<and> totalNodeCount w' = 1)"
  using failed_chunk_rejects_whole_create[OF second_chunk_pending_fields(1-4),
      of shortPayload "Transport ''Tana API error: 400 Bad Request''" 5]
    second_chunk_pending_fields
  by auto

text \<open>
  C3.  \<^verbatim>\<open>lastRequestTime\<close> is set only after a success.  Under the default options
  (one request per second) an entry that fails for the last time at 12030 ms is
  followed by the dispatch of the next entry at 12040 ms.
\<close>

theorem failed_attempt_leaves_no_pacing_gap:
  "map (\<lambda>d. (fst d, entryId (snd d)))
     (dispatched (the (run defaultOptions shortPayload initial failing_then_next)))
   = [(5000, 1), (6010, 1), (8020, 1), (12030, 1), (12040, 2)]"
  by code_simp

text \<open>
  C4, as stated, fails.  \<^verbatim>\<open>handleRequestError\<close> does not look at the error: a rename
  that the remote refuses with status 400 gets its counter incremented, waits the
  backoff and returns to the front of the list; nothing is rejected.
\<close>

theorem invalid_request_is_retried:
  "map retryCount (queue (the (run defaultOptions shortPayload initial rejected_as_invalid))) = [1]
   \<and> settled (the (run defaultOptions shortPayload initial rejected_as_invalid)) = []
   \<and> clock (the (run defaultOptions shortPayload initial rejected_as_invalid)) = 2000"
  by code_simp

text \<open>
  C4, amended.  Every failure of the executor, whatever its error, is handled alike:
  while the counter of the entry is below \<^verbatim>\<open>maxRetries\<close> the counter goes up, the backoff
  is waited and the entry returns to the front; otherwise the promise is rejected at
  once with the error wrapped.
\<close>

theorem every_failure_handled_alike:
  assumes "processing w" "queue w = q # rest"
  shows "\<exists>w'. processQueue_iteration opts jsonLength (Inl err) latency w = Some w'
     \<and> (if int (retryCount q) < maxRetries opts
         then queue w' = q\<lparr>retryCount := Suc (retryCount q)\<rparr> # rest
            \<and> settled w' = settled w
            \<and> clock w' = clock (rateLimitWait opts w) + max 0 latency
                + max 0 (baseBackoffMs opts * 2 ^ retryCount q)
         else queue w' = rest
            \<and> settled w' = settled w @ [(promise q, Inl (RetriesFailed (maxRetries opts) err))]
            \<and> clock w' = clock (rateLimitWait opts w) + max 0 latency)"
proof (cases "int (retryCount q) < maxRetries opts")
  case True
  from iteration_retry[OF assms True, of jsonLength err latency] True show ?thesis by auto
next
  case False
  then have "maxRetries opts \<le> int (retryCount q)" by simp
  from iteration_reject[OF assms this, of jsonLength err latency] False show ?thesis by auto
qed

theorem every_failure_handled_alike_witness:
  "processing one_pending
   \<and> queue one_pending = [\<lparr>entryId = 1, request = SetName ''node'' ''name'', promise = 0,
      timestamp = 0, retryCount = 0\<rparr>]
   \<and> (\<exists>w'. processQueue_iteration defaultOptions shortPayload
          (Inl (Transport ''Tana API error: 400 Bad Request'')) 0 one_pending = Some w'
        \<and> map retryCount (queue w') = [1] \<and> settled w' = settled one_pending)"
  using every_failure_handled_alike[OF one_pending_fields, of defaultOptions shortPayload
      "Transport ''Tana API error: 400 Bad Request''" 0]
    one_pending_fields
  by (auto simp: defaultOptions_def)

text \<open>
  C5, as stated, fails.  A split create enqueues its chunks one at a time, each
  after the previous one has resolved, so a rename enqueued after the create is
  dispatched between the first and the second chunk of the create.
\<close>

theorem later_request_overtakes_split:
  "map (\<lambda>d. promise (snd d))
     (dispatched (the (run (defaultOptions\<lparr>maxNodesPerRequest := 2\<rparr>) shortPayload initial
        split_then_rename))) = [0, 1, 0]"
  by code_simp

text \<open>
  C5, amended.  Entries are dispatched in the order in which they joined the pending
  list: the identifiers in the dispatch log never decrease (a repeated identifier is
  a retry of the front entry), the pending entries are in order of their identifiers
  and none is older than a dispatched one, and every iteration dispatches the front
  entry.  A call has at most one entry pending at a time, so the chunks of a split
  create join the list one by one.
\<close>

theorem dispatch_in_order_of_arrival:
  assumes "run opts jsonLength initial evs = Some w"
  shows "sorted (map (\<lambda>d. entryId (snd d)) (dispatched w))
     \<and> sorted_wrt (<) (map entryId (queue w))
     \<and> list_all (\<lambda>d. list_all (\<lambda>q. entryId (snd d) \<le> entryId q) (queue w)) (dispatched w)
     \<and> distinct (map promise (queue w))
     \<and> (queue w = q # rest \<and> processQueue_iteration opts jsonLength outcome latency w = Some w'
          \<longrightarrow> map snd (dispatched w') = map snd (dispatched w) @ [q])"
proof -
  from run_fifo[OF assms] have f: "fifo w" .
  note d = wellformedD[OF run_wellformed[OF assms]]
  have "queue w = q # rest \<and> processQueue_iteration opts jsonLength outcome latency w = Some w'
          \<longrightarrow> map snd (dispatched w') = map snd (dispatched w) @ [q]"
  proof
    assume a: "queue w = q # rest \<and> processQueue_iteration opts jsonLength outcome latency w = Some w'"
    then have i: "processQueue_iteration opts jsonLength outcome latency w = Some w'"
      and p: "processing w" and q: "queue w = q # rest" using d(8) by simp_all
    from i p q show "map snd (dispatched w') = map snd (dispatched w) @ [q]"
      by (cases rule: iteration_cases) simp_all
  qed
  with f d(1) show ?thesis by (simp add: fifo_def list_all_iff)
qed

theorem dispatch_in_order_of_arrival_witness:
  "run (defaultOptions\<lparr>maxNodesPerRequest := 2\<rparr>) shortPayload initial split_then_rename \<noteq> None
   \<and> sorted (map (\<lambda>d. entryId (snd d))
       (dispatched (the (run (defaultOptions\<lparr>maxNodesPerRequest := 2\<rparr>) shortPayload initial
          split_then_rename))))
   \<and> map (\<lambda>d. entryId (snd d))
       (dispatched (the (run (defaultOptions\<lparr>maxNodesPerRequest := 2\<rparr>) shortPayload initial
          split_then_rename))) = [1, 2, 3]"
proof -
  have 1: "run (defaultOptions\<lparr>maxNodesPerRequest := 2\<rparr>) shortPayload initial split_then_rename \<noteq> None"
    and 2: "map (\<lambda>d. entryId (snd d))
       (dispatched (the (run (defaultOptions\<lparr>maxNodesPerRequest := 2\<rparr>) shortPayload initial
          split_then_rename))) = [1, 2, 3]"
    by code_simp+
  from 1 obtain w where
    w: "run (defaultOptions\<lparr>maxNodesPerRequest := 2\<rparr>) shortPayload initial split_then_rename = Some w"
    by blast
  from dispatch_in_order_of_arrival[OF w] 1 2 w show ?thesis by simp
qed

text \<open>
  C6.  In every state the queue reaches no promise has been completed twice; and
  whatever the executor answers from then on, after at most \<open>work\<close> iterations the
  pending list is empty and every call of \<^verbatim>\<open>enqueue\<close> made so far has been completed
  exactly once.
\<close>

theorem every_call_completed_once:
  assumes "run opts jsonLength initial evs = Some w" "work opts w \<le> length outs"
  shows "distinct (map fst (settled w))
     \<and> (\<exists>w'. run opts jsonLength w (map (\<lambda>x. Execute (fst x) (snd x)) outs) = Some w'
          \<and> queue w' = []
          \<and> distinct (map fst (settled w'))
          \<and> set (map fst (settled w')) = {..< calls w})"
proof -
  from run_wellformed[OF assms(1)] have wf: "wellformed opts w" .
  from drain[OF wf assms(2), of jsonLength] obtain w' where
    w': "run opts jsonLength w (map (\<lambda>x. Execute (fst x) (snd x)) outs) = Some w'"
      "queue w' = []" "wellformed opts w'" "calls w' = calls w" by blast
  from wellformedD(2,5)[OF w'(3)] w'(2,4)
  have "distinct (map fst (settled w'))" "set (map fst (settled w')) = {..< calls w}" by simp_all
  with w' wellformedD(2)[OF wf] show ?thesis by blast
qed

theorem every_call_completed_once_witness:
  "run (defaultOptions\<lparr>maxNodesPerRequest := 2, maxRetries := 1\<rparr>) shortPayload initial
       [Enqueue (CreateNodes None [1, 2, 3]), Enqueue (SetName ''node'' ''name'')]
     = Some two_pending
   \<and> work (defaultOptions\<lparr>maxNodesPerRequest := 2, maxRetries := 1\<rparr>) two_pending
       \<le> length mixed_outcomes
   \<and> (\<exists>w'. run (defaultOptions\<lparr>maxNodesPerRequest := 2, maxRetries := 1\<rparr>) shortPayload
          two_pending (map (\<lambda>x. Execute (fst x) (snd x)) mixed_outcomes) = Some w'
        \<and> queue w' = []
        \<and> distinct (map fst (settled w'))
        \<and> settled w' = [(1, Inl (RetriesFailed 1 (Transport ''socket hang up''))),
             (0, Inr \<lparr>children = Some [''a'', ''b'', ''c'']\<rparr>)])"
  using every_call_completed_once[OF two_pending_run(1,2)] two_pending_run
  by auto

text \<open>
  C7.  With a positive limit, \<^verbatim>\<open>chunkNodes\<close> returns, and its chunks are the node list
  cut from left to right: concatenated they give the list back, none is empty or
  longer than the limit, and all but the last have exactly the limit's length.
  \<^verbatim>\<open>combineResponses\<close> appends the children of the responses in chunk order, so when
  the executor answers every chunk with the results of its nodes (\<open>f\<close> per node), the
  combined response is what one call on the whole list would have given.
\<close>

theorem split_combine_identity:
  assumes "0 < maxNodesPerRequest opts"
  shows "\<exists>chunks. chunkNodes ns (maxNodesPerRequest opts) = Some chunks
     \<and> concat chunks = ns
     \<and> (\<forall>c \<in> set chunks. c \<noteq> [] \<and> int (length c) \<le> maxNodesPerRequest opts)
     \<and> (\<forall>c \<in> set (butlast chunks). int (length c) = maxNodesPerRequest opts)
     \<and> combineResponses (map (\<lambda>c. \<lparr>children = Some (map f c)\<rparr>) chunks)
         = \<lparr>children = Some (map f ns)\<rparr>"
proof -
  from chunkNodes_pos[OF assms, of ns] obtain chunks where
    c: "chunkNodes ns (maxNodesPerRequest opts) = Some chunks" "concat chunks = ns"
      "\<forall>c \<in> set chunks. c \<noteq> [] \<and> int (length c) \<le> maxNodesPerRequest opts"
      "\<forall>c \<in> set (butlast chunks). int (length c) = maxNodesPerRequest opts"
    by blast
  have "map (\<lambda>c. \<lparr>children = Some (map f c)\<rparr>) chunks
      = map (\<lambda>cs. \<lparr>children = Some cs\<rparr>) (map (map f) chunks)"
    by simp
  then have "combineResponses (map (\<lambda>c. \<lparr>children = Some (map f c)\<rparr>) chunks)
      = \<lparr>children = Some (concat (map (map f) chunks))\<rparr>"
    unfolding combineResponses_def by (simp only: combineResponses_loop_all append_Nil)
  also have "concat (map (map f) chunks) = map f ns"
    using c(2) map_concat[of f chunks] by simp
  finally show ?thesis using c by blast
qed

theorem split_combine_identity_witness:
  "0 < maxNodesPerRequest defaultOptions
   \<and> map length (the (chunkNodes [0 ..< 250] (maxNodesPerRequest defaultOptions))) = [100, 100, 50]
   \<and> (\<exists>chunks. chunkNodes [0 ..< 250] (maxNodesPerRequest defaultOptions) = Some chunks
        \<and> concat chunks = [0 ..< 250]
        \<and> combineResponses (map (\<lambda>c. \<lparr>children = Some (map Suc c)\<rparr>) chunks)
            = \<lparr>children = Some (map Suc [0 ..< 250])\<rparr>)"
proof -
  have pos: "0 < maxNodesPerRequest defaultOptions" by (simp add: defaultOptions_def)
  have "maxNodesPerRequest defaultOptions = 100" by (simp add: defaultOptions_def)
  with chunks_of_250 split_combine_identity[OF pos, of "[0 ..< 250]" Suc] pos
  show ?thesis by auto
qed

text \<open>
  C8.  With \<^verbatim>\<open>maxRetries\<close> not negative, no entry is dispatched more than
  \<^verbatim>\<open>maxRetries + 1\<close> times: a pending entry has been dispatched as often as its counter
  says, the counter never passes \<^verbatim>\<open>maxRetries\<close>, and when the entry at the front has
  used up its retries a further failure rejects its promise instead of re-queueing
  it.
\<close>

theorem retry_bound:
  assumes "0 \<le> maxRetries opts" "run opts jsonLength initial evs = Some w"
  shows "int (attempts i w) \<le> maxRetries opts + 1
     \<and> list_all (\<lambda>q. int (retryCount q) \<le> maxRetries opts
          \<and> attempts (entryId q) w = retryCount q) (queue w)
     \<and> (queue w = q # rest \<and> int (retryCount q) = maxRetries opts \<longrightarrow>
          (\<exists>w'. processQueue_iteration opts jsonLength (Inl err) latency w = Some w'
             \<and> queue w' = rest
             \<and> settled w' = settled w @ [(promise q, Inl (RetriesFailed (maxRetries opts) err))]))"
proof -
  from run_retries_bounded[OF assms] have b: "retries_bounded opts w" .
  then have 1: "int (attempts i w) \<le> maxRetries opts + 1"
    by (simp add: retries_bounded_def)
  from b have 2: "list_all (\<lambda>q. int (retryCount q) \<le> maxRetries opts
          \<and> attempts (entryId q) w = retryCount q) (queue w)"
    by (simp add: retries_bounded_def list_all_iff)
  have 3: "queue w = q # rest \<and> int (retryCount q) = maxRetries opts \<longrightarrow>
          (\<exists>w'. processQueue_iteration opts jsonLength (Inl err) latency w = Some w'
             \<and> queue w' = rest
             \<and> settled w' = settled w @ [(promise q, Inl (RetriesFailed (maxRetries opts) err))])"
  proof
    assume a: "queue w = q # rest \<and> int (retryCount q) = maxRetries opts"
    with wellformedD(8)[OF run_wellformed[OF assms(2)]] have p: "processing w" by simp
    from iteration_reject[OF p, of q rest opts jsonLength err latency] a
    show "\<exists>w'. processQueue_iteration opts jsonLength (Inl err) latency w = Some w'
             \<and> queue w' = rest
             \<and> settled w' = settled w @ [(promise q, Inl (RetriesFailed (maxRetries opts) err))]"
      by auto
  qed
  from 1 2 3 show ?thesis by blast
qed

theorem retry_bound_witness:
  "0 \<le> maxRetries (defaultOptions\<lparr>maxRetries := 1\<rparr>)
   \<and> run (defaultOptions\<lparr>maxRetries := 1\<rparr>) shortPayload initial always_failing \<noteq> None
   \<and> int (attempts 1
        (the (run (defaultOptions\<lparr>maxRetries := 1\<rparr>) shortPayload initial always_failing)))
      \<le> maxRetries (defaultOptions\<lparr>maxRetries := 1\<rparr>) + 1
   \<and> settled (the (run (defaultOptions\<lparr>maxRetries := 1\<rparr>) shortPayload initial always_failing))
     = [(0, Inl (RetriesFailed 1 (Transport ''socket hang up'')))]
   \<and> map (\<lambda>d. entryId (snd d))
     (dispatched (the (run (defaultOptions\<lparr>maxRetries := 1\<rparr>) shortPayload initial always_failing)))
     = [1, 1]"
proof -
  have m: "0 \<le> maxRetries (defaultOptions\<lparr>maxRetries := 1\<rparr>)" by simp
  from always_failing_run(1) obtain w where
    w: "run (defaultOptions\<lparr>maxRetries := 1\<rparr>) shortPayload initial always_failing = Some w"
    by blast
  from retry_bound[OF m w, of 1] always_failing_run w m show ?thesis by simp
qed

text \<open>
  C9.  A request that fails the workspace check or the payload check is rejected in
  the call of \<^verbatim>\<open>enqueue\<close> itself, and the call touches no field of the queue: the
  pending list, the node count, the identifier counter, the worker flag and the time
  of the last request are what they were, and nothing is dispatched.  So after any
  series of denied requests a request that would be denied is denied still.
\<close>

theorem denied_request_changes_nothing:
  assumes "maxWorkspaceNodes opts < totalNodeCount w + estimatedNewNodes req
      \<or> maxPayloadSize opts < jsonLength req"
    and "list_all (\<lambda>r. maxWorkspaceNodes opts < totalNodeCount w + estimatedNewNodes r
      \<or> maxPayloadSize opts < jsonLength r) priors"
  shows "\<exists>w' err. run opts jsonLength w (map Enqueue priors @ [Enqueue req]) = Some w'
     \<and> last (settled w') = (calls w + length priors, Inl err)
     \<and> length (settled w') = length (settled w) + length priors + 1
     \<and> queue w' = queue w \<and> processing w' = processing w
     \<and> lastRequestTime w' = lastRequestTime w \<and> totalNodeCount w' = totalNodeCount w
     \<and> requestId w' = requestId w \<and> dispatched w' = dispatched w"
proof -
  have "list_all (\<lambda>r. maxWorkspaceNodes opts < totalNodeCount w + estimatedNewNodes r
      \<or> maxPayloadSize opts < jsonLength r) (priors @ [req])"
    using assms by simp
  from run_denied[OF this] show ?thesis by auto
qed

theorem denied_request_changes_nothing_witness:
  "(maxWorkspaceNodes (defaultOptions\<lparr>maxWorkspaceNodes := 10\<rparr>)
      < totalNodeCount (setNodeCount 8 (initial :: (nat, string) state))
        + estimatedNewNodes (CreateNodes None [1, 2, 3, 4, 5 :: nat])
    \<or> maxPayloadSize (defaultOptions\<lparr>maxWorkspaceNodes := 10\<rparr>)
      < shortPayload (CreateNodes None [1, 2, 3, 4, 5 :: nat]))
   \<and> (\<exists>w' err. run (defaultOptions\<lparr>maxWorkspaceNodes := 10\<rparr>) shortPayload
         (setNodeCount 8 (initial :: (nat, string) state))
         [Enqueue (CreateNodes None [6, 7, 8]), Enqueue (CreateNodes None [1, 2, 3, 4, 5])] = Some w'
       \<and> last (settled w') = (1, Inl err) \<and> length (settled w') = 2
       \<and> queue w' = [] \<and> totalNodeCount w' = 8 \<and> requestId w' = 0)"
  using denied_request_changes_nothing[of "defaultOptions\<lparr>maxWorkspaceNodes := 10\<rparr>"
      "setNodeCount 8 (initial :: (nat, string) state)" "CreateNodes None [1, 2, 3, 4, 5 :: nat]"
      shortPayload "[CreateNodes None [6, 7, 8]]"]
  by (auto simp: defaultOptions_def initial_def setNodeCount_def)

text \<open>
  C10.  In every state the queue reaches the node count is at least zero:
  \<^verbatim>\<open>setNodeCount\<close> stores the maximum of zero and its argument, \<^verbatim>\<open>resetNodeCount\<close>
  stores zero, and \<^verbatim>\<open>updateNodeCount\<close> adds the number of children of the response,
  which is not negative.
\<close>

theorem totalNodeCount_never_negative:
  assumes "run opts jsonLength initial evs = Some w"
  shows "0 \<le> totalNodeCount w
    \<and> totalNodeCount (setNodeCount count w) = max 0 count
    \<and> totalNodeCount (resetNodeCount w) = 0
    \<and> totalNodeCount (updateNodeCount req response w) =
        totalNodeCount w + (if isCreateNodesRequest req then nodesCreated response else 0)
    \<and> 0 \<le> nodesCreated response"
proof -
  have "0 \<le> totalNodeCount w"
    by (rule run_invariant[OF assms, where P = "\<lambda>w. 0 \<le> totalNodeCount w"])
       (simp_all add: initial_def step_nonneg)
  moreover have "0 \<le> nodesCreated response"
    by (simp add: nodesCreated_def split: option.splits)
  ultimately show ?thesis by simp
qed

theorem totalNodeCount_never_negative_witness:
  "run defaultOptions shortPayload (initial :: (nat, string) state)
      [SetNodeCount (- 5), Enqueue (CreateNodes None [1, 2]),
       Execute (Inr \<lparr>children = Some [''a'', ''b'']\<rparr>) 20]
     \<noteq> None
   \<and> 0 \<le> totalNodeCount (the (run defaultOptions shortPayload (initial :: (nat, string) state)
      [SetNodeCount (- 5), Enqueue (CreateNodes None [1, 2]),
       Execute (Inr \<lparr>children = Some [''a'', ''b'']\<rparr>) 20]))
   \<and> totalNodeCount (setNodeCount (- 5) (initial :: (nat, string) state)) = 0"
proof -
  have r: "\<exists>w. run defaultOptions shortPayload (initial :: (nat, string) state)
      [SetNodeCount (- 5), Enqueue (CreateNodes None [1, 2]),
       Execute (Inr \<lparr>children = Some [''a'', ''b'']\<rparr>) 20] = Some w"
    by (simp add: defaultOptions_def initial_def enqueue_def admission_def shortPayload_def
        processQueue_iteration_def resolveCall_def Let_def)
  then obtain w where w: "run defaultOptions shortPayload (initial :: (nat, string) state)
      [SetNodeCount (- 5), Enqueue (CreateNodes None [1, 2]),
       Execute (Inr \<lparr>children = Some [''a'', ''b'']\<rparr>) 20] = Some w" by blast
  from totalNodeCount_never_negative[OF w] w show ?thesis
    by (simp add: setNodeCount_def initial_def)
qed

end
